theory Spec2Isabelle
  imports Complex_Main
begin

section \<open>Errors and colours\<close>

text \<open>
  The script \<^verbatim>\<open>calculate_contrast.py\<close> defines four functions: \<^verbatim>\<open>hex_to_rgb\<close>,
  \<^verbatim>\<open>rgb_to_luminance\<close>, \<^verbatim>\<open>contrast_ratio\<close> and \<^verbatim>\<open>blend_rgba_on_rgb\<close>.
  The exceptions they can raise are values of \<open>error\<close>: \<^verbatim>\<open>int(x, 16)\<close> raises
  \<^verbatim>\<open>ValueError\<close> on a malformed literal (the specification calls it FormatError), and a
  float division raises \<^verbatim>\<open>ZeroDivisionError\<close> on a zero divisor.
  A colour is a triple of Python integers.
\<close>

datatype error = ValueError | ZeroDivisionError

type_synonym rgb = "int \<times> int \<times> int"

definition is_color :: "rgb \<Rightarrow> bool" where
  "is_color c =
     (case c of (r, g, b) \<Rightarrow>
        0 \<le> r \<and> r \<le> 255 \<and> 0 \<le> g \<and> g \<le> 255 \<and> 0 \<le> b \<and> b \<le> 255)"

section \<open>Parsing a hexadecimal colour\<close>

text \<open>
  Python strings are sequences of code points; a \<open>char\<close> stands for a code point below 256.
  \<^verbatim>\<open>hex_color.lstrip('#')\<close> removes every leading \<^verbatim>\<open>#\<close>, and \<^verbatim>\<open>hex_color[i:i+2]\<close>
  is a slice, which never raises: past the end of the string it is shorter or empty.
\<close>

definition lstrip_hash :: "string \<Rightarrow> string" where
  "lstrip_hash s = dropWhile (\<lambda>c. c = CHR ''#'') s"

definition slice :: "nat \<Rightarrow> nat \<Rightarrow> string \<Rightarrow> string" where
  "slice i j s = take (j - i) (drop i s)"

text \<open>
  \<^verbatim>\<open>int(x, 16)\<close> on a string: surrounding whitespace is skipped, then an optional sign, then
  an optional \<^verbatim>\<open>0x\<close> or \<^verbatim>\<open>0X\<close> prefix (which one underscore may follow), then digits below
  the base with single underscores between them. Below code point 256 the whitespace
  characters are tab, line feed, vertical tab, form feed, carriage return, space,
  U+0085 and U+00A0, and the only decimal digits are \<^verbatim>\<open>0\<close> to \<^verbatim>\<open>9\<close>.
\<close>

definition py_isspace :: "char \<Rightarrow> bool" where
  "py_isspace c \<longleftrightarrow> (of_char c :: nat) \<in> {9, 10, 11, 12, 13, 32, 133, 160}"

definition digit_value :: "char \<Rightarrow> nat option" where
  "digit_value c =
     (let n = of_char c :: nat in
      if 48 \<le> n \<and> n \<le> 57 then Some (n - 48)
      else if 97 \<le> n \<and> n \<le> 122 then Some (n - 87)
      else if 65 \<le> n \<and> n \<le> 90 then Some (n - 55)
      else None)"

definition hex_digit_value :: "char \<Rightarrow> nat option" where
  "hex_digit_value c =
     (case digit_value c of
        Some d \<Rightarrow> if d < 16 then Some d else None
      | None \<Rightarrow> None)"

text \<open>
  The digit loop: \<open>acc\<close> is the value read so far and \<open>prev_us\<close> says that the previous
  character was an underscore. A doubled or trailing underscore is an error; the loop stops
  at the first character that is neither a digit nor an underscore and returns the rest.
\<close>

fun scan_digits :: "nat \<Rightarrow> bool \<Rightarrow> string \<Rightarrow> (nat \<times> string) option" where
  "scan_digits acc prev_us [] = (if prev_us then None else Some (acc, []))"
| "scan_digits acc prev_us (c # cs) =
     (if c = CHR ''_'' then (if prev_us then None else scan_digits acc True cs)
      else case hex_digit_value c of
             Some d \<Rightarrow> scan_digits (16 * acc + d) False cs
           | None \<Rightarrow> (if prev_us then None else Some (acc, c # cs)))"

definition strip_sign :: "string \<Rightarrow> bool \<times> string" where
  "strip_sign s =
     (case s of
        [] \<Rightarrow> (False, s)
      | c # r \<Rightarrow> if c = CHR ''+'' then (False, r)
                 else if c = CHR ''-'' then (True, r)
                 else (False, s))"

definition strip_prefix16 :: "string \<Rightarrow> string" where
  "strip_prefix16 s =
     (case s of
        c # x # r \<Rightarrow>
          if c = CHR ''0'' \<and> (x = CHR ''x'' \<or> x = CHR ''X'')
          then (case r of u # r' \<Rightarrow> if u = CHR ''_'' then r' else r | [] \<Rightarrow> r)
          else s
      | _ \<Rightarrow> s)"

definition py_int16 :: "string \<Rightarrow> error + int" where
  "py_int16 s =
     (let (neg, s2) = strip_sign (dropWhile py_isspace s);
          s3 = strip_prefix16 s2
      in case s3 of
           [] \<Rightarrow> Inl ValueError
         | c # _ \<Rightarrow>
             if hex_digit_value c = None then Inl ValueError
             else (case scan_digits 0 False s3 of
                     None \<Rightarrow> Inl ValueError
                   | Some (v, rest) \<Rightarrow>
                       if dropWhile py_isspace rest = []
                       then Inr (if neg then - int v else int v)
                       else Inl ValueError))"

text \<open>
  \<^verbatim>\<open>tuple(int(hex_color[i:i+2], 16) for i in (0, 2, 4))\<close>: the three groups are parsed in
  order, and the first failure is the exception of the whole call.
\<close>

definition hex_to_rgb :: "string \<Rightarrow> error + rgb" where
  "hex_to_rgb hex_color =
     (let hex_color = lstrip_hash hex_color in
      case py_int16 (slice 0 2 hex_color) of
        Inl e \<Rightarrow> Inl e
      | Inr r \<Rightarrow>
          (case py_int16 (slice 2 4 hex_color) of
             Inl e \<Rightarrow> Inl e
           | Inr g \<Rightarrow>
               (case py_int16 (slice 4 6 hex_color) of
                  Inl e \<Rightarrow> Inl e
                | Inr b \<Rightarrow> Inr (r, g, b))))"

subsection \<open>Vocabulary of the specification\<close>

text \<open>
  A hexadecimal digit, its value, "exactly six hexadecimal digits", and "stripping an
  optional leading \<^verbatim>\<open>#\<close>" (at most one), as the specification words them.
\<close>

definition hex_digit :: "char \<Rightarrow> bool" where
  "hex_digit c \<longleftrightarrow> c \<in> set ''0123456789abcdefABCDEF''"

definition hex_value :: "char \<Rightarrow> nat" where
  "hex_value c = (case hex_digit_value c of Some d \<Rightarrow> d | None \<Rightarrow> 0)"

definition hex_pair :: "char \<Rightarrow> char \<Rightarrow> int" where
  "hex_pair c d = int (16 * hex_value c + hex_value d)"

definition six_hex_digits :: "string \<Rightarrow> bool" where
  "six_hex_digits s \<longleftrightarrow> length s = 6 \<and> list_all hex_digit s"

definition strip_optional_hash :: "string \<Rightarrow> string" where
  "strip_optional_hash s =
     (case s of [] \<Rightarrow> [] | c # r \<Rightarrow> if c = CHR ''#'' then r else s)"

text \<open>
  The groups of at most two characters that \<^verbatim>\<open>int(x, 16)\<close> accepts, and their values:
  two hexadecimal digits; one digit after a sign or a whitespace character, or before a
  whitespace character; a single digit.
\<close>

fun group_ok :: "string \<Rightarrow> bool" where
  "group_ok [c] = hex_digit c"
| "group_ok [c, d] =
     ((hex_digit c \<and> (hex_digit d \<or> py_isspace d)) \<or>
      ((py_isspace c \<or> c = CHR ''+'' \<or> c = CHR ''-'') \<and> hex_digit d))"
| "group_ok _ = False"

fun group_value :: "string \<Rightarrow> int" where
  "group_value [c] = int (hex_value c)"
| "group_value [c, d] =
     (if hex_digit c
      then (if hex_digit d then hex_pair c d else int (hex_value c))
      else if c = CHR ''-'' then - int (hex_value d) else int (hex_value d))"
| "group_value _ = 0"

section \<open>Floating-point arithmetic\<close>

text \<open>
  Python's \<^verbatim>\<open>float\<close> is IEEE 754 binary64. Every arithmetic operation returns the exact
  real result rounded to a representable number, a decimal literal denotes the nearest
  representable number, an integer operand is converted to a float first, and \<^verbatim>\<open>**\<close>
  calls the platform's \<^verbatim>\<open>pow\<close>. The model keeps the rounding explicit: an arithmetic \<open>F\<close>
  supplies the rounding function \<open>rnd F\<close> and the power function \<open>pow F\<close>, and every float
  operation of the source is the exact operation followed by \<open>rnd F\<close>. A finite float is
  the real number it denotes. The model covers integers and results within the range of
  finite floats, where no operation raises \<^verbatim>\<open>OverflowError\<close>; on colours every value the
  script computes is below \<open>256\<close> in magnitude.
\<close>

record fp =
  rnd :: "real \<Rightarrow> real"
  pow :: "real \<Rightarrow> real \<Rightarrow> real"

text \<open>Exact real arithmetic: nothing is rounded.\<close>

definition exact_fp :: fp where
  "exact_fp = \<lparr>rnd = (\<lambda>x. x), pow = (\<lambda>x y. x powr y)\<rparr>"

text \<open>
  What the theorems below assume of an arithmetic, all of it true of binary64 with
  rounding to nearest: a rounded result is within relative error \<open>2\<^sup>-\<^sup>5\<^sup>0\<close> of the exact
  one (binary64 gives \<open>2\<^sup>-\<^sup>5\<^sup>3\<close>; the absolute term covers gradual underflow), integers up
  to \<open>2\<^sup>5\<^sup>3\<close> are representable, and \<open>pow\<close> on a positive base is accurate to a few units
  in the last place.
\<close>

definition float_ok :: "fp \<Rightarrow> bool" where
  "float_ok F \<longleftrightarrow>
     (\<forall>x. \<bar>rnd F x - x\<bar> \<le> \<bar>x\<bar> / 2 ^ 50 + 1 / 2 ^ 1074) \<and>
     (\<forall>n::int. \<bar>n\<bar> \<le> 2 ^ 53 \<longrightarrow> rnd F (of_int n) = of_int n) \<and>
     (\<forall>x y. 0 < x \<longrightarrow> \<bar>pow F x y - x powr y\<bar> \<le> (x powr y) / 2 ^ 50 + 1 / 2 ^ 1074)"

text \<open>
  Binary64 itself. A finite binary64 number is a sign and a magnitude \<open>m \<cdot> 2\<^sup>e\<close> with
  \<open>m < 2\<^sup>5\<^sup>3\<close>; for a magnitude in \<open>[2\<^sup>e, 2\<^sup>e\<^sup>+\<^sup>1)\<close> the spacing of the numbers is
  \<open>2\<^sup>e\<^sup>-\<^sup>5\<^sup>2\<close>, and below \<open>2\<^sup>-\<^sup>1\<^sup>0\<^sup>2\<^sup>2\<close> (the subnormal numbers) it stays \<open>2\<^sup>-\<^sup>1\<^sup>0\<^sup>7\<^sup>4\<close>. Rounding
  to nearest takes the magnitude to the nearest multiple of the spacing, a tie to the
  multiple with an even \<open>m\<close>. Overflow is not modelled: the script's values are below
  \<open>256\<close> in magnitude.
\<close>

definition round_even :: "real \<Rightarrow> int" where
  "round_even y =
     (let f = \<lfloor>y\<rfloor>; d = y - of_int f in
      if d < 1 / 2 then f
      else if 1 / 2 < d then f + 1
      else if even f then f else f + 1)"

definition b64_exponent :: "real \<Rightarrow> int" where
  "b64_exponent x = max \<lfloor>log 2 x\<rfloor> (- 1022)"

definition b64_ulp :: "real \<Rightarrow> real" where
  "b64_ulp x = 2 powr of_int (b64_exponent x - 52)"

definition round_mag :: "real \<Rightarrow> real" where
  "round_mag x = (if x = 0 then 0 else of_int (round_even (x / b64_ulp x)) * b64_ulp x)"

definition round64 :: "real \<Rightarrow> real" where
  "round64 x = sgn x * round_mag \<bar>x\<bar>"

text \<open>
  The platform's \<^verbatim>\<open>pow\<close> is not specified bit for bit. What is assumed of it: on a
  positive base it is accurate to a few units in the last place, and \<open>pow(1, y)\<close> is \<open>1\<close>
  for every \<open>y\<close>, which the C standard requires and CPython's \<^verbatim>\<open>float.__pow__\<close> returns
  without calling the library.
\<close>

definition pow_ok :: "(real \<Rightarrow> real \<Rightarrow> real) \<Rightarrow> bool" where
  "pow_ok pw \<longleftrightarrow>
     (\<forall>x y. 0 < x \<longrightarrow> \<bar>pw x y - x powr y\<bar> \<le> (x powr y) / 2 ^ 50 + 1 / 2 ^ 1074) \<and>
     (\<forall>y. pw 1 y = 1)"

definition binary64 :: "(real \<Rightarrow> real \<Rightarrow> real) \<Rightarrow> fp" where
  "binary64 pw = \<lparr>rnd = round64, pow = pw\<rparr>"

definition lit :: "fp \<Rightarrow> real \<Rightarrow> real" where
  "lit F x = rnd F x"

definition of_py_int :: "fp \<Rightarrow> int \<Rightarrow> real" where
  "of_py_int F n = rnd F (of_int n)"

definition fadd :: "fp \<Rightarrow> real \<Rightarrow> real \<Rightarrow> real" where
  "fadd F x y = rnd F (x + y)"

definition fsub :: "fp \<Rightarrow> real \<Rightarrow> real \<Rightarrow> real" where
  "fsub F x y = rnd F (x - y)"

definition fmul :: "fp \<Rightarrow> real \<Rightarrow> real \<Rightarrow> real" where
  "fmul F x y = rnd F (x * y)"

definition fdiv :: "fp \<Rightarrow> real \<Rightarrow> real \<Rightarrow> real" where
  "fdiv F x y = rnd F (x / y)"

text \<open>Float division by a value that may be zero raises \<^verbatim>\<open>ZeroDivisionError\<close>.\<close>

definition truediv :: "fp \<Rightarrow> real \<Rightarrow> real \<Rightarrow> error + real" where
  "truediv F x y = (if y = 0 then Inl ZeroDivisionError else Inr (fdiv F x y))"

text \<open>\<^verbatim>\<open>int(x)\<close> on a float rounds toward zero.\<close>

definition py_trunc :: "real \<Rightarrow> int" where
  "py_trunc x = (if 0 \<le> x then \<lfloor>x\<rfloor> else \<lceil>x\<rceil>)"

section \<open>Relative luminance\<close>

text \<open>
  The inner function \<^verbatim>\<open>adjust\<close> of \<^verbatim>\<open>rgb_to_luminance\<close>. The channel is a Python integer;
  \<^verbatim>\<open>channel / 255.0\<close> converts it to a float and divides. The divisors here are nonzero
  literals, so these divisions cannot raise.
\<close>

definition adjust :: "fp \<Rightarrow> int \<Rightarrow> real" where
  "adjust F channel =
     (let channel = fdiv F (of_py_int F channel) (lit F 255) in
      if channel \<le> lit F 0.03928 then fdiv F channel (lit F 12.92)
      else pow F (fdiv F (fadd F channel (lit F 0.055)) (lit F 1.055)) (lit F 2.4))"

definition rgb_to_luminance :: "fp \<Rightarrow> int \<Rightarrow> int \<Rightarrow> int \<Rightarrow> real" where
  "rgb_to_luminance F r g b =
     (let r_adj = adjust F r;
          g_adj = adjust F g;
          b_adj = adjust F b
      in fadd F (fadd F (fmul F (lit F 0.2126) r_adj) (fmul F (lit F 0.7152) g_adj))
           (fmul F (lit F 0.0722) b_adj))"

section \<open>Contrast ratio\<close>

text \<open>
  An argument of \<^verbatim>\<open>contrast_ratio\<close> is a string or a triple (\<^verbatim>\<open>isinstance(color, str)\<close>
  decides); a string is resolved by \<open>hex_to_rgb\<close> first, \<open>color1\<close> before \<open>color2\<close>.
\<close>

datatype color = Str string | Rgb rgb

definition resolve :: "color \<Rightarrow> error + rgb" where
  "resolve c = (case c of Str s \<Rightarrow> hex_to_rgb s | Rgb t \<Rightarrow> Inr t)"

definition contrast_ratio :: "fp \<Rightarrow> color \<Rightarrow> color \<Rightarrow> error + real" where
  "contrast_ratio F color1 color2 =
     (case resolve color1 of
        Inl e \<Rightarrow> Inl e
      | Inr (r1, g1, b1) \<Rightarrow>
          (case resolve color2 of
             Inl e \<Rightarrow> Inl e
           | Inr (r2, g2, b2) \<Rightarrow>
               (let lum1 = rgb_to_luminance F r1 g1 b1;
                    lum2 = rgb_to_luminance F r2 g2 b2;
                    lighter = max lum1 lum2;
                    darker = min lum1 lum2
                in truediv F (fadd F lighter (lit F 0.05)) (fadd F darker (lit F 0.05)))))"

text \<open>A result that is a ratio within the given bounds (and not an exception).\<close>

definition ratio_within :: "real \<Rightarrow> real \<Rightarrow> error + real \<Rightarrow> bool" where
  "ratio_within lo hi res = (case res of Inl e \<Rightarrow> False | Inr q \<Rightarrow> lo \<le> q \<and> q \<le> hi)"

text \<open>
  The report's verdict for large text: \<^verbatim>\<open>"PASS" if ratio >= 3.0 else "FAIL"\<close>.
\<close>

definition aa_large_pass :: "real \<Rightarrow> bool" where
  "aa_large_pass ratio \<longleftrightarrow> ratio \<ge> 3.0"

section \<open>Alpha blending\<close>

text \<open>
  One channel of \<^verbatim>\<open>blend_rgba_on_rgb\<close>: \<^verbatim>\<open>fg * alpha + bg * (1 - alpha)\<close> in floating point
  (the integers are converted first), then \<^verbatim>\<open>int(...)\<close>.
\<close>

definition blend_value :: "fp \<Rightarrow> int \<Rightarrow> int \<Rightarrow> real \<Rightarrow> real" where
  "blend_value F f b alpha =
     fadd F (fmul F (of_py_int F f) alpha) (fmul F (of_py_int F b) (fsub F (of_py_int F 1) alpha))"

definition blend_rgba_on_rgb :: "fp \<Rightarrow> rgb \<Rightarrow> rgb \<Rightarrow> real \<Rightarrow> rgb" where
  "blend_rgba_on_rgb F fg_rgb bg_rgb alpha =
     (case fg_rgb of (fr, fg, fb) \<Rightarrow>
      case bg_rgb of (br, bg, bb) \<Rightarrow>
        (let r = py_trunc (blend_value F fr br alpha);
             g = py_trunc (blend_value F fg bg alpha);
             b = py_trunc (blend_value F fb bb alpha)
         in (r, g, b)))"

section \<open>Properties of the parser\<close>

text \<open>
  Characters are compared through their code points, which turns the case analysis on a
  character into arithmetic on a natural number.
\<close>

lemma char_eq_code: "c = d \<longleftrightarrow> (of_char c :: nat) = of_char d"
  by simp

lemma hex_digit_code:
  "hex_digit c \<longleftrightarrow>
     (let n = of_char c :: nat
      in (48 \<le> n \<and> n \<le> 57) \<or> (97 \<le> n \<and> n \<le> 102) \<or> (65 \<le> n \<and> n \<le> 70))"
  unfolding hex_digit_def Let_def
  apply (simp add: char_eq_code [of c])
  apply arith
  done

lemma hex_digit_iff: "hex_digit c \<longleftrightarrow> hex_digit_value c \<noteq> None"
  unfolding hex_digit_code hex_digit_value_def digit_value_def Let_def
  by (auto split: option.splits if_splits)

lemma hex_digit_value_Some: "hex_digit c \<Longrightarrow> hex_digit_value c = Some (hex_value c)"
  by (auto simp: hex_digit_iff hex_value_def)

lemma not_hex_digit_value: "\<not> hex_digit c \<Longrightarrow> hex_digit_value c = None"
  by (simp add: hex_digit_iff)

lemma hex_value_less: "hex_value c < 16"
  by (auto simp: hex_value_def hex_digit_value_def split: option.splits if_splits)

lemma hex_value_le: "hex_pair c d \<le> 255" "0 \<le> hex_pair c d"
  using hex_value_less [of c] hex_value_less [of d] by (simp_all add: hex_pair_def)

lemma hex_digit_not_special:
  assumes "hex_digit c"
  shows "\<not> py_isspace c" "c \<noteq> CHR ''+''" "c \<noteq> CHR ''-''" "c \<noteq> CHR ''_''"
    "c \<noteq> CHR ''x''" "c \<noteq> CHR ''X''" "c \<noteq> CHR ''#''"
  using assms unfolding hex_digit_code py_isspace_def Let_def
  by (auto simp: char_eq_code [of c])

lemma special_not_hex_digit:
  "\<not> hex_digit (CHR ''+'')" "\<not> hex_digit (CHR ''-'')" "\<not> hex_digit (CHR ''_'')"
  "\<not> hex_digit (CHR ''x'')" "\<not> hex_digit (CHR ''X'')"
  by (simp_all add: hex_digit_def)

lemma space_not_special:
  assumes "py_isspace c"
  shows "c \<noteq> CHR ''+''" "c \<noteq> CHR ''-''" "c \<noteq> CHR ''_''" "c \<noteq> CHR ''x''" "c \<noteq> CHR ''X''"
    "\<not> hex_digit c"
  using assms unfolding hex_digit_code py_isspace_def Let_def
  by (auto simp: char_eq_code [of c])

text \<open>
  \<open>py_int16\<close> on a string of at most two characters, which is all that \<open>hex_to_rgb\<close> passes
  to it: the accepted strings are those of \<open>group_ok\<close>. A two-character group is too short
  for a \<^verbatim>\<open>0x\<close> prefix with a digit after it or for an underscore between digits.
\<close>

lemma py_int16_nil: "py_int16 [] = Inl ValueError"
  by (simp add: py_int16_def strip_sign_def strip_prefix16_def)

lemma py_int16_single:
  "py_int16 [c] = (if hex_digit c then Inr (int (hex_value c)) else Inl ValueError)"
proof (cases "hex_digit c")
  case True
  then show ?thesis
    by (simp add: py_int16_def strip_sign_def strip_prefix16_def hex_digit_value_Some
        hex_digit_not_special)
next
  case False
  then show ?thesis
    by (auto simp: py_int16_def strip_sign_def strip_prefix16_def not_hex_digit_value)
qed

lemma py_int16_pair:
  "py_int16 [c, d] = (if group_ok [c, d] then Inr (group_value [c, d]) else Inl ValueError)"
proof -
  consider (hh) "hex_digit c" "hex_digit d"
    | (hs) "hex_digit c" "\<not> hex_digit d" "py_isspace d"
    | (hx) "hex_digit c" "\<not> hex_digit d" "\<not> py_isspace d"
    | (sp) "\<not> hex_digit c" "py_isspace c"
    | (plus) "c = CHR ''+''"
    | (minus) "c = CHR ''-''"
    | (other) "\<not> hex_digit c" "\<not> py_isspace c" "c \<noteq> CHR ''+''" "c \<noteq> CHR ''-''"
    by blast
  then show ?thesis
  proof cases
    case hh
    then show ?thesis
      by (simp add: py_int16_def strip_sign_def strip_prefix16_def hex_digit_value_Some
          hex_digit_not_special hex_pair_def)
  next
    case hs
    then show ?thesis
      by (simp add: py_int16_def strip_sign_def strip_prefix16_def hex_digit_value_Some
          not_hex_digit_value hex_digit_not_special space_not_special)
  next
    case hx
    then show ?thesis
      by (auto simp: py_int16_def strip_sign_def strip_prefix16_def hex_digit_value_Some
          not_hex_digit_value hex_digit_not_special)
  next
    case sp
    then show ?thesis
      by (cases "hex_digit d")
        (auto simp: py_int16_def strip_sign_def strip_prefix16_def hex_digit_value_Some
          not_hex_digit_value hex_digit_not_special space_not_special)
  next
    case plus
    then show ?thesis
      by (cases "hex_digit d")
        (auto simp: py_int16_def strip_sign_def strip_prefix16_def hex_digit_value_Some
          not_hex_digit_value hex_digit_not_special special_not_hex_digit py_isspace_def)
  next
    case minus
    then show ?thesis
      by (cases "hex_digit d")
        (auto simp: py_int16_def strip_sign_def strip_prefix16_def hex_digit_value_Some
          not_hex_digit_value hex_digit_not_special special_not_hex_digit py_isspace_def)
  next
    case other
    then show ?thesis
      by (auto simp: py_int16_def strip_sign_def strip_prefix16_def not_hex_digit_value)
  qed
qed

lemma py_int16_group:
  assumes "length g \<le> 2"
  shows "py_int16 g = (if group_ok g then Inr (group_value g) else Inl ValueError)"
proof -
  from assms consider "g = []" | c where "g = [c]" | c d where "g = [c, d]"
    by (cases g rule: group_ok.cases) auto
  then show ?thesis
    by cases (simp_all only: py_int16_nil py_int16_single py_int16_pair group_ok.simps
        group_value.simps if_False)
qed

text \<open>
  \<open>hex_to_rgb\<close> in terms of the three groups, and on strings of six hexadecimal digits.
\<close>

lemma hex_to_rgb_by_groups:
  "hex_to_rgb s =
     (let h = lstrip_hash s in
      if group_ok (slice 0 2 h) \<and> group_ok (slice 2 4 h) \<and> group_ok (slice 4 6 h)
      then Inr (group_value (slice 0 2 h), group_value (slice 2 4 h), group_value (slice 4 6 h))
      else Inl ValueError)"
proof -
  have len: "length (slice 0 2 h) \<le> 2" "length (slice 2 4 h) \<le> 2" "length (slice 4 6 h) \<le> 2"
    for h
    by (simp_all add: slice_def)
  show ?thesis
    by (simp add: hex_to_rgb_def Let_def py_int16_group [OF len(1)] py_int16_group [OF len(2)]
        py_int16_group [OF len(3)])
qed

lemma hex_to_rgb_error: "hex_to_rgb s = Inl e \<Longrightarrow> e = ValueError"
  by (simp add: hex_to_rgb_by_groups Let_def split: if_splits)

lemma hex_to_rgb_six:
  assumes "lstrip_hash s = [a, b, c, d, e, f]"
    and "hex_digit a" "hex_digit b" "hex_digit c" "hex_digit d" "hex_digit e" "hex_digit f"
  shows "hex_to_rgb s = Inr (hex_pair a b, hex_pair c d, hex_pair e f)"
  using assms by (simp add: hex_to_rgb_by_groups slice_def)

lemma six_hex_digitsE:
  assumes "six_hex_digits s"
  obtains a b c d e f where "s = [a, b, c, d, e, f]"
    "hex_digit a" "hex_digit b" "hex_digit c" "hex_digit d" "hex_digit e" "hex_digit f"
proof -
  from assms have "length s = 6" and all: "list_all hex_digit s"
    by (simp_all add: six_hex_digits_def)
  then obtain a b c d e f where s: "s = [a, b, c, d, e, f]"
    by (auto simp: length_Suc_conv eval_nat_numeral)
  with all that show thesis by simp
qed

lemma lstrip_hash_hashes:
  assumes "s = [] \<or> hd s \<noteq> CHR ''#''"
  shows "lstrip_hash (replicate n (CHR ''#'') @ s) = s"
  using assms by (induction n) (auto simp: lstrip_hash_def dropWhile_eq_self_iff)

lemma lstrip_hash_six:
  assumes "six_hex_digits s"
  shows "lstrip_hash (replicate n (CHR ''#'') @ s) = s"
proof -
  from assms obtain a r where "s = a # r" "hex_digit a"
    by (auto elim: six_hex_digitsE)
  then have "s = [] \<or> hd s \<noteq> CHR ''#''"
    by (simp add: hex_digit_not_special)
  then show ?thesis by (rule lstrip_hash_hashes)
qed

lemma hex_to_rgb_hashes:
  assumes "six_hex_digits s"
  shows "hex_to_rgb (replicate n (CHR ''#'') @ s) =
         Inr (hex_pair (s ! 0) (s ! 1), hex_pair (s ! 2) (s ! 3), hex_pair (s ! 4) (s ! 5))"
proof -
  from assms obtain a b c d e f where s: "s = [a, b, c, d, e, f]"
    and h: "hex_digit a" "hex_digit b" "hex_digit c" "hex_digit d" "hex_digit e" "hex_digit f"
    by (rule six_hex_digitsE)
  have "lstrip_hash (replicate n (CHR ''#'') @ s) = [a, b, c, d, e, f]"
    using lstrip_hash_six [OF assms] s by simp
  from hex_to_rgb_six [OF this h] show ?thesis
    by (simp add: s)
qed

lemma strip_optional_six:
  assumes "six_hex_digits (strip_optional_hash s)"
  shows "lstrip_hash s = strip_optional_hash s"
proof (cases s)
  case Nil
  then show ?thesis by (simp add: lstrip_hash_def strip_optional_hash_def)
next
  case (Cons c r)
  show ?thesis
  proof (cases "c = CHR ''#''")
    case True
    with Cons assms have six: "six_hex_digits r"
      by (simp add: strip_optional_hash_def)
    from lstrip_hash_six [OF six, of 1] show ?thesis
      using Cons True by (simp add: strip_optional_hash_def)
  next
    case False
    with Cons show ?thesis
      by (simp add: lstrip_hash_def strip_optional_hash_def)
  qed
qed

lemma hex_to_rgb_valid:
  assumes "six_hex_digits (strip_optional_hash s)"
  shows "\<exists>t. hex_to_rgb s = Inr t \<and> is_color t"
proof -
  from assms have six: "six_hex_digits (lstrip_hash s)"
    by (simp add: strip_optional_six)
  then obtain a b c d e f where h: "lstrip_hash s = [a, b, c, d, e, f]"
    and d: "hex_digit a" "hex_digit b" "hex_digit c" "hex_digit d" "hex_digit e" "hex_digit f"
    by (rule six_hex_digitsE)
  from hex_to_rgb_six [OF h d] show ?thesis
    by (simp add: is_color_def hex_value_le)
qed

lemma hex_white: "hex_to_rgb ''#ffffff'' = Inr (255, 255, 255)"
  by (simp add: hex_to_rgb_by_groups lstrip_hash_def slice_def hex_digit_def hex_pair_def
      hex_value_def hex_digit_value_def digit_value_def)

lemma hex_normal: "hex_to_rgb ''#27ae60'' = Inr (39, 174, 96)"
  by (simp add: hex_to_rgb_by_groups lstrip_hash_def slice_def hex_digit_def hex_pair_def
      hex_value_def hex_digit_value_def digit_value_def)

section \<open>Arguments of the contrast ratio\<close>

lemma resolve_error: "resolve c = Inl e \<Longrightarrow> e = ValueError"
  by (cases c) (auto simp: resolve_def dest: hex_to_rgb_error)

lemma contrast_ratio_sym: "contrast_ratio F a b = contrast_ratio F b a"
proof (cases "resolve a")
  case (Inl e)
  then have e: "e = ValueError" by (rule resolve_error)
  show ?thesis
  proof (cases "resolve b")
    case (Inl e')
    then have "e' = ValueError" by (rule resolve_error)
    with e Inl \<open>resolve a = Inl e\<close> show ?thesis
      by (simp add: contrast_ratio_def)
  next
    case (Inr t)
    with Inl show ?thesis
      by (simp add: contrast_ratio_def split: prod.splits)
  qed
next
  case (Inr t)
  show ?thesis
  proof (cases "resolve b")
    case (Inl e')
    with Inr show ?thesis
      by (simp add: contrast_ratio_def split: prod.splits)
  next
    case Inr': (Inr t')
    with Inr show ?thesis
      by (simp add: contrast_ratio_def Let_def max.commute min.commute split: prod.splits)
  qed
qed

lemma contrast_hex_white_normal:
  "contrast_ratio F (Str ''#ffffff'') (Str ''#27ae60'') =
   contrast_ratio F (Rgb (255, 255, 255)) (Rgb (39, 174, 96))"
  by (simp only: contrast_ratio_def resolve_def color.case hex_white hex_normal)

section \<open>Properties of the rounding model\<close>

text \<open>
  Exact arithmetic meets \<open>float_ok\<close> and rounds monotonically. For the values the script
  computes, all below \<open>999\<close> in magnitude, a rounding moves a result by at most \<open>10\<^sup>-\<^sup>1\<^sup>2\<close>,
  and by at most \<open>10\<^sup>-\<^sup>1\<^sup>3\<close> below \<open>99\<close>.
\<close>

lemma float_ok_exact: "float_ok exact_fp"
  by (simp add: float_ok_def exact_fp_def)

lemma tiny_le: "(1::real) / 2 ^ 1074 \<le> 1 / 10 ^ 15"
proof -
  have "(2::real) ^ 50 \<le> 2 ^ 1074"
    by (rule power_increasing) simp_all
  moreover have "(10::real) ^ 15 \<le> 2 ^ 50" by simp
  ultimately have "(10::real) ^ 15 \<le> 2 ^ 1074" by linarith
  then show ?thesis
    by (intro divide_left_mono) simp_all
qed

lemma rnd_err:
  assumes "float_ok F"
  shows "\<bar>rnd F x - x\<bar> \<le> (\<bar>x\<bar> + 1) / 10 ^ 15"
proof -
  from assms have "\<bar>rnd F x - x\<bar> \<le> \<bar>x\<bar> / 2 ^ 50 + 1 / 2 ^ 1074"
    by (simp add: float_ok_def)
  moreover have "\<bar>x\<bar> / 2 ^ 50 \<le> \<bar>x\<bar> / 10 ^ 15"
    by (intro divide_left_mono) simp_all
  ultimately show ?thesis
    using tiny_le by (simp add: add_divide_distrib)
qed

lemma rnd_near:
  assumes "float_ok F" and "\<bar>x\<bar> \<le> 999"
  shows "\<bar>rnd F x - x\<bar> \<le> 1 / 10 ^ 12"
proof -
  have "(\<bar>x\<bar> + 1) / 10 ^ 15 \<le> 1000 / 10 ^ 15"
    using assms(2) by (intro divide_right_mono) simp_all
  with rnd_err [OF assms(1), of x] show ?thesis by simp
qed

lemma rnd_near13:
  assumes "float_ok F" and "\<bar>x\<bar> \<le> 99"
  shows "\<bar>rnd F x - x\<bar> \<le> 1 / 10 ^ 13"
proof -
  have "(\<bar>x\<bar> + 1) / 10 ^ 15 \<le> 100 / 10 ^ 15"
    using assms(2) by (intro divide_right_mono) simp_all
  with rnd_err [OF assms(1), of x] show ?thesis by simp
qed

lemma pow_near13:
  assumes "float_ok F" and "0 < x" and "x powr y \<le> 99"
  shows "\<bar>pow F x y - x powr y\<bar> \<le> 1 / 10 ^ 13"
proof -
  from assms(1,2) have "\<bar>pow F x y - x powr y\<bar> \<le> (x powr y) / 2 ^ 50 + 1 / 2 ^ 1074"
    by (simp add: float_ok_def)
  moreover have "(x powr y) / 2 ^ 50 \<le> (x powr y) / 10 ^ 15"
    by (intro divide_left_mono) simp_all
  moreover have "(x powr y + 1) / 10 ^ 15 \<le> 100 / 10 ^ 15"
    using assms(3) by (intro divide_right_mono) simp_all
  ultimately show ?thesis
    using tiny_le by (simp add: add_divide_distrib)
qed

lemma rnd_int:
  assumes "float_ok F" and "\<bar>n\<bar> \<le> 2 ^ 53"
  shows "rnd F (of_int n) = of_int n"
  using assms by (simp add: float_ok_def)

lemma rnd_color:
  assumes "float_ok F" and "0 \<le> n" and "n \<le> 255"
  shows "rnd F (of_int n) = of_int n"
proof (rule rnd_int [OF assms(1)])
  show "\<bar>n\<bar> \<le> 2 ^ 53" using assms(2,3) by simp
qed

lemma rnd_0: "float_ok F \<Longrightarrow> rnd F 0 = 0"
  using rnd_int [of F 0] by simp

lemma rnd_1: "float_ok F \<Longrightarrow> rnd F 1 = 1"
  using rnd_int [of F 1] by simp

lemma rnd_255: "float_ok F \<Longrightarrow> rnd F 255 = 255"
  using rnd_int [of F 255] by simp

section \<open>Error propagation\<close>

text \<open>
  How a bound \<open>\<bar>x - v\<bar> \<le> e\<close> between a computed value \<open>x\<close> and its exact counterpart \<open>v\<close>
  passes through sums, products, quotients, \<open>max\<close> and \<open>min\<close>, and one more rounding.
\<close>

lemma lower_from_near:
  fixes x :: real
  assumes "\<bar>x - v\<bar> \<le> e" and "m + e \<le> v"
  shows "m \<le> x"
  using assms by linarith

lemma upper_from_near:
  fixes x :: real
  assumes "\<bar>x - v\<bar> \<le> e" and "v + e \<le> M"
  shows "x \<le> M"
  using assms by linarith

lemma near_weaken:
  fixes x :: real
  assumes "\<bar>x - v\<bar> \<le> e" and "e \<le> e'"
  shows "\<bar>x - v\<bar> \<le> e'"
  using assms by linarith

lemma near_trans:
  fixes x :: real
  assumes "\<bar>x - y\<bar> \<le> a" and "\<bar>y - z\<bar> \<le> b" and "a + b \<le> c"
  shows "\<bar>x - z\<bar> \<le> c"
  using assms by linarith

lemma add_near:
  fixes x y :: real
  assumes "\<bar>x - x'\<bar> \<le> a" and "\<bar>y - y'\<bar> \<le> b"
  shows "\<bar>(x + y) - (x' + y')\<bar> \<le> a + b"
  using assms by linarith

lemma max_near:
  fixes a b :: real
  assumes "\<bar>a - a'\<bar> \<le> e" and "\<bar>b - b'\<bar> \<le> e"
  shows "\<bar>max a b - max a' b'\<bar> \<le> e" and "\<bar>min a b - min a' b'\<bar> \<le> e"
  using assms by linarith+

lemma near_rnd:
  assumes "float_ok F" and "\<bar>x - y\<bar> \<le> d" and "d \<le> 1" and "\<bar>y\<bar> \<le> 998"
  shows "\<bar>rnd F x - y\<bar> \<le> d + 1 / 10 ^ 12"
proof -
  have "\<bar>x\<bar> \<le> 999" using assms(2-4) by linarith
  from rnd_near [OF assms(1) this] assms(2) show ?thesis by linarith
qed

lemma near_rnd13:
  assumes "float_ok F" and "\<bar>x - y\<bar> \<le> d" and "d \<le> 1" and "\<bar>y\<bar> \<le> 98"
  shows "\<bar>rnd F x - y\<bar> \<le> d + 1 / 10 ^ 13"
proof -
  have "\<bar>x\<bar> \<le> 99" using assms(2-4) by linarith
  from rnd_near13 [OF assms(1) this] assms(2) show ?thesis by linarith
qed

lemma mult_near:
  fixes x y :: real
  assumes "\<bar>x - x'\<bar> \<le> a" and "\<bar>y - y'\<bar> \<le> b" and "\<bar>x\<bar> \<le> X" and "\<bar>y'\<bar> \<le> Y"
  shows "\<bar>x * y - x' * y'\<bar> \<le> X * b + a * Y"
proof -
  have "x * y - x' * y' = x * (y - y') + (x - x') * y'"
    by (simp add: algebra_simps)
  then have "\<bar>x * y - x' * y'\<bar> \<le> \<bar>x\<bar> * \<bar>y - y'\<bar> + \<bar>x - x'\<bar> * \<bar>y'\<bar>"
    by (metis abs_mult abs_triangle_ineq)
  also have "\<dots> \<le> X * b + a * Y"
    using assms by (intro add_mono mult_mono) simp_all
  finally show ?thesis .
qed

lemma div_near:
  fixes x d :: real
  assumes "\<bar>x - x'\<bar> \<le> a" and "\<bar>d - d'\<bar> \<le> b" and "0 < m" and "m \<le> d" and "m \<le> d'"
    and "\<bar>x'\<bar> \<le> M"
  shows "\<bar>x / d - x' / d'\<bar> \<le> a / m + M * b / (m * m)"
proof -
  have d: "0 < d" "0 < d'" using assms by linarith+
  have a0: "0 \<le> a" and b0: "0 \<le> b" and M0: "0 \<le> M" using assms by linarith+
  have "x / d - x' / d' = (x - x') / d + x' * (d' - d) / (d * d')"
    using d by (simp add: field_simps)
  then have "\<bar>x / d - x' / d'\<bar> \<le> \<bar>(x - x') / d\<bar> + \<bar>x' * (d' - d) / (d * d')\<bar>"
    by (metis abs_triangle_ineq)
  moreover have "\<bar>(x - x') / d\<bar> \<le> a / m"
  proof -
    have "\<bar>(x - x') / d\<bar> = \<bar>x - x'\<bar> / d" using d by simp
    also have "\<dots> \<le> a / m"
      using assms d a0 by (intro frac_le) simp_all
    finally show ?thesis .
  qed
  moreover have "\<bar>x' * (d' - d) / (d * d')\<bar> \<le> M * b / (m * m)"
  proof -
    have "\<bar>x' * (d' - d) / (d * d')\<bar> = \<bar>x'\<bar> * \<bar>d - d'\<bar> / (d * d')"
      using d by (simp add: abs_mult abs_minus_commute)
    also have "\<dots> \<le> M * b / (m * m)"
      using assms d M0 b0 by (intro frac_le mult_mono) simp_all
    finally show ?thesis .
  qed
  ultimately show ?thesis by linarith
qed

subsection \<open>Powers\<close>

text \<open>
  The power \<open>x powr p\<close> under a small change of the base and of the exponent: the base
  changes by a factor \<open>r\<close> close to \<open>1\<close>, bounded through \<open>r\<^sup>3\<close>, and the exponent by a
  summand \<open>d\<close> close to \<open>0\<close>, bounded through \<open>exp (d * ln x)\<close>.
\<close>

lemma cube_near_one:
  fixes r :: real
  assumes "\<bar>r - 1\<bar> \<le> \<delta>" and "\<delta> \<le> 1 / 10"
  shows "\<bar>r ^ 3 - 1\<bar> \<le> 4 * \<delta>"
proof -
  have r: "9 / 10 \<le> r" "r \<le> 11 / 10" using assms by linarith+
  have "r * r \<le> (11 / 10) * (11 / 10)"
    using r by (intro mult_mono) simp_all
  then have q: "0 \<le> r * r + r + 1" "r * r + r + 1 \<le> 4"
    using r by simp_all
  have "r ^ 3 - 1 = (r - 1) * (r * r + r + 1)"
    by (simp add: power3_eq_cube algebra_simps)
  then have "\<bar>r ^ 3 - 1\<bar> = \<bar>r - 1\<bar> * (r * r + r + 1)"
    using q by (simp add: abs_mult)
  also have "\<dots> \<le> \<delta> * 4"
    using assms q by (intro mult_mono) simp_all
  finally show ?thesis by simp
qed

lemma powr_ratio_near_one:
  fixes r p :: real
  assumes "\<bar>r - 1\<bar> \<le> \<delta>" and "\<delta> \<le> 1 / 10" and "2 \<le> p" and "p \<le> 3"
  shows "\<bar>r powr p - 1\<bar> \<le> 4 * \<delta>"
proof -
  have r: "0 < r" using assms by linarith
  have cube: "r powr 3 = r ^ 3"
    using r powr_realpow [of r 3] by simp
  note c = cube_near_one [OF assms(1,2)]
  show ?thesis
  proof (cases "1 \<le> r")
    case True
    have "1 \<le> r powr p"
      using True assms by (intro ge_one_powr_ge_zero) simp_all
    moreover have "r powr p \<le> r powr 3"
      using True assms by (intro powr_mono) simp_all
    ultimately show ?thesis using c cube by linarith
  next
    case False
    then have r1: "r \<le> 1" by simp
    have "r powr p \<le> 1"
      using r r1 assms by (intro powr_le1) simp_all
    moreover have "r powr 3 \<le> r powr p"
      using r r1 assms by (intro powr_mono') simp_all
    ultimately show ?thesis using c cube by linarith
  qed
qed

lemma ln_lower: 
  fixes x :: real
  assumes "0 < x"
  shows "1 - 1 / x \<le> ln x"
proof -
  have "ln (1 / x) \<le> 1 / x - 1"
    using assms by (intro ln_le_minus_one) simp
  then show ?thesis
    using assms by (simp add: ln_div)
qed

lemma exp_near_one:
  fixes t :: real
  assumes "\<bar>t\<bar> \<le> c" and "c \<le> 1 / 10"
  shows "\<bar>exp t - 1\<bar> \<le> 2 * c"
proof -
  have lo: "1 + t \<le> exp t" by (rule exp_ge_add_one_self)
  have "1 + (- t) \<le> exp (- t)" by (rule exp_ge_add_one_self)
  then have "1 - t \<le> 1 / exp t"
    by (simp add: exp_minus inverse_eq_divide)
  moreover have "0 < 1 - t" using assms by linarith
  ultimately have "exp t \<le> 1 / (1 - t)"
    by (simp add: field_simps)
  also have "1 / (1 - t) \<le> 1 / (1 - c)"
    using assms by (intro divide_left_mono) (auto intro!: mult_pos_pos)
  also have "1 / (1 - c) \<le> 1 + 2 * c"
  proof -
    have c0: "0 \<le> c" using assms by linarith
    define s where "s = c * c"
    have "s \<le> (1 / 10) * c"
      unfolding s_def using assms c0 by (intro mult_right_mono) simp_all
    moreover have "0 \<le> s" by (simp add: s_def)
    moreover have "(1 + 2 * c) * (1 - c) = 1 + c - 2 * s"
      by (simp add: s_def algebra_simps)
    ultimately have "1 \<le> (1 + 2 * c) * (1 - c)"
      by linarith
    moreover have "0 < 1 - c" using assms by linarith
    ultimately show ?thesis
      by (simp add: field_simps)
  qed
  finally show ?thesis using lo assms by linarith
qed

lemma powr_exponent_near:
  fixes x d :: real
  assumes "9 / 100 \<le> x" and "x \<le> 1" and "\<bar>d\<bar> \<le> b" and "b \<le> 1 / 200"
  shows "\<bar>x powr d - 1\<bar> \<le> 24 * b"
proof -
  have x: "0 < x" using assms by linarith
  have "1 / x \<le> 1 / (9 / 100)"
    using assms x by (intro divide_left_mono) simp_all
  then have "- 11 \<le> 1 - 1 / x" by simp
  with ln_lower [OF x] have lo: "- 11 \<le> ln x" by linarith
  have hi: "ln x \<le> 0" using x assms by simp
  have "\<bar>d * ln x\<bar> = \<bar>d\<bar> * \<bar>ln x\<bar>" by (rule abs_mult)
  also have "\<dots> \<le> b * 11"
    using assms lo hi by (intro mult_mono) simp_all
  finally have "\<bar>d * ln x\<bar> \<le> 11 * b" by simp
  moreover have "11 * b \<le> 1 / 10" using assms by simp
  ultimately have "\<bar>exp (d * ln x) - 1\<bar> \<le> 2 * (11 * b)"
    by (rule exp_near_one)
  moreover have "0 \<le> b" using assms by linarith
  moreover have "x powr d = exp (d * ln x)"
    using x by (simp add: powr_def)
  ultimately show ?thesis by simp
qed

lemma powr_near:
  fixes x x' p :: real
  assumes x': "9 / 100 \<le> x'" "x' \<le> 1" and a: "\<bar>x - x'\<bar> \<le> a" "a \<le> 1 / 1000"
    and b: "\<bar>p - 2.4\<bar> \<le> b" "b \<le> 1 / 200"
  shows "\<bar>x powr p - x' powr 2.4\<bar> \<le> 48 * a + 26 * b"
proof -
  define r where "r = x / x'"
  define u where "u = x' powr (p - 2.4)"
  define w where "w = r powr p"
  define B where "B = x' powr 2.4"
  have pos: "0 < x'" using x' by linarith
  have a0: "0 \<le> a" and b0: "0 \<le> b" using a b by linarith+
  have "\<bar>r - 1\<bar> = \<bar>x - x'\<bar> / x'"
    using pos by (simp add: r_def field_simps)
  also have "\<dots> \<le> a / (9 / 100)"
    using a x' pos a0 by (intro frac_le) simp_all
  also have "\<dots> \<le> 12 * a" using a0 by simp
  finally have r1: "\<bar>r - 1\<bar> \<le> 12 * a" .
  have r0: "0 < r" using r1 a by linarith
  have p: "2 \<le> p" "p \<le> 3" using b by linarith+
  have w: "\<bar>w - 1\<bar> \<le> 4 * (12 * a)"
    unfolding w_def using r1 _ p by (rule powr_ratio_near_one) (use a in simp)
  have u: "\<bar>u - 1\<bar> \<le> 24 * b"
    unfolding u_def using x' b by (rule powr_exponent_near)
  have B: "0 \<le> B" "B \<le> 1"
    unfolding B_def using x' pos by (simp_all add: powr_le1)
  have "x = x' * r" using pos by (simp add: r_def)
  then have "x powr p = x' powr p * w"
    using pos r0 by (simp add: w_def powr_mult)
  moreover have "x' powr p = B * u"
    unfolding B_def u_def by (simp flip: powr_add)
  ultimately have eq: "x powr p - B = B * (u * w - 1)"
    by (simp add: algebra_simps)
  have "u * w - 1 = (u - 1) * (w - 1) + (u - 1) + (w - 1)"
    by (simp add: algebra_simps)
  moreover have "\<bar>(u - 1) * (w - 1)\<bar> \<le> (24 * b) * (4 * (12 * a))"
    unfolding abs_mult using u w by (intro mult_mono) simp_all
  moreover have "(24 * b) * (4 * (12 * a)) \<le> (24 * b) * (48 / 1000)"
    using a b0 by (intro mult_left_mono) simp_all
  ultimately have uw: "\<bar>u * w - 1\<bar> \<le> 48 * a + 26 * b"
    using u w b0 by linarith
  have "\<bar>x powr p - B\<bar> = B * \<bar>u * w - 1\<bar>"
    using B by (simp add: eq abs_mult)
  also have "\<dots> \<le> 1 * (48 * a + 26 * b)"
    using B uw by (intro mult_mono) simp_all
  finally show ?thesis by (simp add: B_def)
qed

section \<open>Properties of alpha blending\<close>

lemma py_trunc_of_int: "py_trunc (of_int n) = n"
  by (simp add: py_trunc_def)

lemma py_trunc_range:
  assumes "- 1 < v" and "v < 256"
  shows "0 \<le> py_trunc v \<and> py_trunc v \<le> 255"
  using assms unfolding py_trunc_def by (auto simp: floor_less_iff less_ceiling_iff le_floor_iff)

lemma blend_value_exact:
  "blend_value exact_fp f b alpha = of_int f * alpha + of_int b * (1 - alpha)"
  by (simp add: blend_value_def fadd_def fmul_def fsub_def of_py_int_def exact_fp_def)

lemma blend_value_0:
  assumes "float_ok F" "0 \<le> b" "b \<le> 255"
  shows "blend_value F f b 0 = of_int b"
  using assms
  by (simp add: blend_value_def fadd_def fmul_def fsub_def of_py_int_def rnd_0 rnd_1 rnd_color)

lemma blend_value_1:
  assumes "float_ok F" "0 \<le> f" "f \<le> 255"
  shows "blend_value F f b 1 = of_int f"
  using assms
  by (simp add: blend_value_def fadd_def fmul_def fsub_def of_py_int_def rnd_0 rnd_1 rnd_color)

lemma mult_unit_interval:
  fixes c t :: real
  assumes "0 \<le> c" "c \<le> 255" "0 \<le> t" "t \<le> 1"
  shows "0 \<le> c * t" "c * t \<le> 255"
proof -
  show "0 \<le> c * t" using assms by simp
  have "c * t \<le> c * 1" using assms by (intro mult_left_mono) simp_all
  with assms show "c * t \<le> 255" by simp
qed

lemma blend_value_near:
  assumes F: "float_ok F" and f: "0 \<le> f" "f \<le> 255" and b: "0 \<le> b" "b \<le> 255"
    and a: "0 \<le> alpha" "alpha \<le> 1"
  shows "\<bar>blend_value F f b alpha - (of_int f * alpha + of_int b * (1 - alpha))\<bar> \<le> 1 / 10 ^ 9"
proof -
  define m1 where "m1 = rnd F (of_int f * alpha)"
  define s where "s = rnd F (1 - alpha)"
  define m2 where "m2 = rnd F (of_int b * s)"
  have rf: "0 \<le> real_of_int f" "real_of_int f \<le> 255"
    and rb: "0 \<le> real_of_int b" "real_of_int b \<le> 255"
    using f b by simp_all
  have a': "0 \<le> 1 - alpha" "1 - alpha \<le> 1" using a by simp_all
  note fa = mult_unit_interval [OF rf a]
  note ba = mult_unit_interval [OF rb a']
  have m1: "\<bar>m1 - of_int f * alpha\<bar> \<le> 1 / 10 ^ 12"
    unfolding m1_def using fa by (intro rnd_near [OF F]) simp
  have s: "\<bar>s - (1 - alpha)\<bar> \<le> 1 / 10 ^ 12"
    unfolding s_def using a by (intro rnd_near [OF F]) simp
  have "\<bar>of_int b * s - of_int b * (1 - alpha)\<bar> = of_int b * \<bar>s - (1 - alpha)\<bar>"
    using rb by (simp add: abs_mult flip: right_diff_distrib)
  also have "\<dots> \<le> 255 * (1 / 10 ^ 12)"
    using rb s by (intro mult_mono) simp_all
  finally have bs: "\<bar>of_int b * s - of_int b * (1 - alpha)\<bar> \<le> 255 / 10 ^ 12"
    by simp
  have "\<bar>of_int b * (1 - alpha)\<bar> \<le> 998"
    using ba by linarith
  then have m2: "\<bar>m2 - of_int b * (1 - alpha)\<bar> \<le> 255 / 10 ^ 12 + 1 / 10 ^ 12"
    unfolding m2_def using bs by (intro near_rnd [OF F]) simp_all
  have sum: "\<bar>(m1 + m2) - (of_int f * alpha + of_int b * (1 - alpha))\<bar> \<le> 257 / 10 ^ 12"
    using m1 m2 by linarith
  have "\<bar>of_int f * alpha + of_int b * (1 - alpha)\<bar> \<le> 998"
    using fa ba by linarith
  then have "\<bar>rnd F (m1 + m2) - (of_int f * alpha + of_int b * (1 - alpha))\<bar>
          \<le> 257 / 10 ^ 12 + 1 / 10 ^ 12"
    using sum by (intro near_rnd [OF F]) simp_all
  moreover have "blend_value F f b alpha = rnd F (m1 + m2)"
    using F by (simp add: blend_value_def fadd_def fmul_def fsub_def of_py_int_def m1_def m2_def
        s_def rnd_1 rnd_color f b)
  ultimately show ?thesis by simp
qed

lemma blend_channel_range:
  assumes F: "float_ok F" and f: "0 \<le> f" "f \<le> 255" and b: "0 \<le> b" "b \<le> 255"
    and a: "0 \<le> alpha" "alpha \<le> 1"
  shows "0 \<le> py_trunc (blend_value F f b alpha) \<and> py_trunc (blend_value F f b alpha) \<le> 255"
proof -
  define x where "x = of_int f * alpha + of_int b * (1 - alpha)"
  have rf: "0 \<le> real_of_int f" "real_of_int f \<le> 255"
    and rb: "0 \<le> real_of_int b" "real_of_int b \<le> 255"
    using f b by simp_all
  have a': "0 \<le> 1 - alpha" using a by simp
  have u1: "of_int f * alpha \<le> 255 * alpha"
    using rf a by (intro mult_right_mono)
  have u2: "of_int b * (1 - alpha) \<le> 255 * (1 - alpha)"
    using rb a' by (intro mult_right_mono)
  have l1: "0 \<le> of_int f * alpha" and l2: "0 \<le> of_int b * (1 - alpha)"
    using rf rb a a' by (simp_all only: mult_nonneg_nonneg)
  have "255 * alpha + 255 * (1 - alpha) = (255::real)" by simp
  with u1 u2 have "x \<le> 255" unfolding x_def by linarith
  moreover from l1 l2 have "0 \<le> x" unfolding x_def by linarith
  ultimately have x: "0 \<le> x" "x \<le> 255" by simp_all
  have near: "\<bar>blend_value F f b alpha - x\<bar> \<le> 1 / 10 ^ 9"
    unfolding x_def by (rule blend_value_near [OF F f b a])
  have "- 1 + 1 / 10 ^ 9 \<le> (0::real)" by simp
  with x have "- 1 + 1 / 10 ^ 9 \<le> x" by linarith
  with near have lo: "- 1 \<le> blend_value F f b alpha" by (rule lower_from_near)
  have "255 + 1 / 10 ^ 9 \<le> (2555 / 10 :: real)" by simp
  with x have "x + 1 / 10 ^ 9 \<le> 2555 / 10" by linarith
  with near have hi: "blend_value F f b alpha \<le> 2555 / 10" by (rule upper_from_near)
  have "- 1 < blend_value F f b alpha \<or> blend_value F f b alpha = - 1"
    using lo by linarith
  then show ?thesis
  proof
    assume "- 1 < blend_value F f b alpha"
    moreover have "blend_value F f b alpha < 256" using hi by linarith
    ultimately show ?thesis by (rule py_trunc_range)
  next
    assume "blend_value F f b alpha = - 1"
    with near x show ?thesis by simp
  qed
qed

lemma blend_is_color:
  assumes "float_ok F" and "is_color (fr, fg, fb)" and "is_color (br, bg, bb)"
    and "0 \<le> alpha" and "alpha \<le> 1"
  shows "is_color (blend_rgba_on_rgb F (fr, fg, fb) (br, bg, bb) alpha)"
  using assms by (simp add: is_color_def blend_rgba_on_rgb_def blend_channel_range)

lemma blend_channels_near:
  assumes "float_ok F" and "is_color (fr, fg, fb)" and "is_color (br, bg, bb)"
    and "0 \<le> alpha" and "alpha \<le> 1"
  shows "\<bar>blend_value F fr br alpha - (of_int fr * alpha + of_int br * (1 - alpha))\<bar> \<le> 1 / 10 ^ 9 \<and>
         \<bar>blend_value F fg bg alpha - (of_int fg * alpha + of_int bg * (1 - alpha))\<bar> \<le> 1 / 10 ^ 9 \<and>
         \<bar>blend_value F fb bb alpha - (of_int fb * alpha + of_int bb * (1 - alpha))\<bar> \<le> 1 / 10 ^ 9"
  using assms by (simp only: is_color_def prod.case blend_value_near)

section \<open>Properties of the relative luminance\<close>

lemma is_color_black: "is_color (0, 0, 0)" and is_color_white: "is_color (255, 255, 255)"
  by (simp_all add: is_color_def)

lemma is_color_normal: "is_color (39, 174, 96)"
  by (simp add: is_color_def)

text \<open>
  \<open>adjust\<close> in exact arithmetic and in floating point. On a colour channel both take the
  same branch, since \<open>10 / 255\<close> and \<open>11 / 255\<close> are far from \<open>0.03928\<close>, and the results differ
  by at most \<open>4 \<cdot> 10\<^sup>-\<^sup>1\<^sup>1\<close>.
\<close>

lemma adjust_exact:
  "adjust exact_fp n =
     (if real_of_int n / 255 \<le> 0.03928 then real_of_int n / 255 / 12.92
      else ((real_of_int n / 255 + 0.055) / 1.055) powr 2.4)"
  by (simp add: adjust_def exact_fp_def fdiv_def fadd_def lit_def of_py_int_def Let_def)

lemma adjust_float:
  assumes "float_ok F" and "0 \<le> n" and "n \<le> 255"
  shows "adjust F n =
     (let c = rnd F (real_of_int n / 255) in
      if c \<le> rnd F 0.03928 then rnd F (c / rnd F 12.92)
      else pow F (rnd F (rnd F (c + rnd F 0.055) / rnd F 1.055)) (rnd F 2.4))"
  using assms
  by (simp add: adjust_def fdiv_def fadd_def lit_def of_py_int_def Let_def rnd_color rnd_255)

lemma adjust_exact_linear:
  assumes "n \<le> 10"
  shows "adjust exact_fp n = real_of_int n / 255 / 12.92"
proof -
  have "real_of_int n / 255 \<le> 10 / 255"
    using assms by simp
  then have "real_of_int n / 255 \<le> 0.03928" by simp
  then show ?thesis by (simp only: adjust_exact if_True)
qed

lemma adjust_exact_power:
  assumes "11 \<le> n"
  shows "adjust exact_fp n = ((real_of_int n / 255 + 0.055) / 1.055) powr 2.4"
proof -
  have "11 / 255 \<le> real_of_int n / 255"
    using assms by simp
  then have "\<not> real_of_int n / 255 \<le> 0.03928" by simp
  then show ?thesis by (simp only: adjust_exact if_False)
qed

lemma adjust_near_linear:
  assumes F: "float_ok F" and n: "0 \<le> n" "n \<le> 10"
  shows "\<bar>adjust F n - adjust exact_fp n\<bar> \<le> 4 / 10 ^ 11"
proof -
  define t where "t = real_of_int n / 255"
  define c where "c = rnd F t"
  define d where "d = rnd F 12.92"
  have t: "0 \<le> t" "t \<le> 10 / 255"
    using n by (simp_all add: t_def)
  have c: "\<bar>c - t\<bar> \<le> 1 / 10 ^ 13"
    unfolding c_def using t by (intro rnd_near13 [OF F]) simp
  have k: "\<bar>rnd F 0.03928 - 0.03928\<bar> \<le> 1 / 10 ^ 13"
    by (intro rnd_near13 [OF F]) simp
  have d: "\<bar>d - 12.92\<bar> \<le> 1 / 10 ^ 13"
    unfolding d_def by (intro rnd_near13 [OF F]) simp
  have "t + 2 * (1 / 10 ^ 13) \<le> 0.03928"
    using t by simp
  with c k have branch: "c \<le> rnd F 0.03928"
    by linarith
  have "\<bar>c / d - t / 12.92\<bar> \<le> (1 / 10 ^ 13) / 12 + 1 * (1 / 10 ^ 13) / (12 * 12)"
    using c d _ _ _ _
  proof (rule div_near)
    show "(0::real) < 12" by simp
    show "12 \<le> d" by (rule lower_from_near [OF d]) simp
    show "(12::real) \<le> 12.92" by simp
    show "\<bar>t\<bar> \<le> 1" using t by simp
  qed
  then have "\<bar>c / d - t / 12.92\<bar> \<le> 1 / 10 ^ 13" by (rule near_weaken) simp
  then have near: "\<bar>rnd F (c / d) - t / 12.92\<bar> \<le> 1 / 10 ^ 13 + 1 / 10 ^ 13"
    using t by (intro near_rnd13 [OF F]) simp_all
  have eq1: "adjust F n = rnd F (c / d)"
    using branch n by (simp add: adjust_float [OF F] c_def d_def t_def)
  have eq2: "adjust exact_fp n = t / 12.92"
    using t by (simp add: adjust_exact t_def)
  show ?thesis
    unfolding eq1 eq2 using near by (rule near_weaken) simp
qed

lemma adjust_near_power:
  assumes F: "float_ok F" and n: "11 \<le> n" "n \<le> 255"
  shows "\<bar>adjust F n - adjust exact_fp n\<bar> \<le> 4 / 10 ^ 11"
proof -
  define t where "t = real_of_int n / 255"
  define c where "c = rnd F t"
  define c2 where "c2 = rnd F (c + rnd F 0.055)"
  define d where "d = rnd F 1.055"
  define c3 where "c3 = rnd F (c2 / d)"
  define p where "p = rnd F 2.4"
  define x' where "x' = (t + 0.055) / 1.055"
  have t: "11 / 255 \<le> t" "t \<le> 1"
    using n by (simp_all add: t_def)
  have c: "\<bar>c - t\<bar> \<le> 1 / 10 ^ 13"
    unfolding c_def using t by (intro rnd_near13 [OF F]) simp
  have k: "\<bar>rnd F 0.03928 - 0.03928\<bar> \<le> 1 / 10 ^ 13"
    by (intro rnd_near13 [OF F]) simp
  have "0.03928 + 2 * (1 / 10 ^ 13) < t"
    using t by simp
  with c k have branch: "\<not> c \<le> rnd F 0.03928"
    by linarith
  have k2: "\<bar>rnd F 0.055 - 0.055\<bar> \<le> 1 / 10 ^ 13"
    by (intro rnd_near13 [OF F]) simp
  have "\<bar>(c + rnd F 0.055) - (t + 0.055)\<bar> \<le> 2 / 10 ^ 13"
    using c k2 by linarith
  then have c2: "\<bar>c2 - (t + 0.055)\<bar> \<le> 2 / 10 ^ 13 + 1 / 10 ^ 13"
    unfolding c2_def using t by (intro near_rnd13 [OF F]) simp_all
  have d: "\<bar>d - 1.055\<bar> \<le> 1 / 10 ^ 13"
    unfolding d_def by (intro rnd_near13 [OF F]) simp
  have "\<bar>c2 / d - (t + 0.055) / 1.055\<bar>
          \<le> (2 / 10 ^ 13 + 1 / 10 ^ 13) / 1 + 2 * (1 / 10 ^ 13) / (1 * 1)"
    using c2 d _ _ _ _
  proof (rule div_near)
    show "(0::real) < 1" by simp
    show "1 \<le> d" by (rule lower_from_near [OF d]) simp
    show "(1::real) \<le> 1.055" by simp
    show "\<bar>t + 0.055\<bar> \<le> 2" using t by simp
  qed
  then have q: "\<bar>c2 / d - x'\<bar> \<le> 5 / 10 ^ 13"
    unfolding x'_def by (rule near_weaken) simp
  have x': "9 / 100 \<le> x'" "x' \<le> 1"
    using t by (simp_all add: x'_def)
  have c3: "\<bar>c3 - x'\<bar> \<le> 5 / 10 ^ 13 + 1 / 10 ^ 13"
    unfolding c3_def using q x' by (intro near_rnd13 [OF F]) simp_all
  have p: "\<bar>p - 2.4\<bar> \<le> 1 / 10 ^ 13"
    unfolding p_def by (intro rnd_near13 [OF F]) simp
  have pw: "\<bar>c3 powr p - x' powr 2.4\<bar> \<le> 48 * (5 / 10 ^ 13 + 1 / 10 ^ 13) + 26 * (1 / 10 ^ 13)"
    using x' c3 _ p by (rule powr_near) simp_all
  have B: "0 \<le> x' powr 2.4" "x' powr 2.4 \<le> 1"
    using x' by (simp_all add: powr_le1)
  have "9 / 100 - 1 / 10 ^ 3 \<le> c3"
    by (rule lower_from_near [OF c3]) (use x' in simp)
  then have c3pos: "0 < c3" by simp
  have "c3 powr p \<le> 99"
    by (rule upper_from_near [OF pw]) (use B in simp)
  with c3pos have "\<bar>pow F c3 p - c3 powr p\<bar> \<le> 1 / 10 ^ 13"
    by (intro pow_near13 [OF F])
  then have near: "\<bar>pow F c3 p - x' powr 2.4\<bar> \<le> 4 / 10 ^ 11"
    using pw by (rule near_trans) simp
  have eq1: "adjust F n = pow F c3 p"
    using branch n
    by (simp add: adjust_float [OF F] c_def c2_def c3_def d_def p_def t_def)
  have eq2: "adjust exact_fp n = x' powr 2.4"
    using t by (simp add: adjust_exact t_def x'_def)
  show ?thesis
    unfolding eq1 eq2 by (rule near)
qed

lemma adjust_near:
  assumes "float_ok F" and "0 \<le> n" and "n \<le> 255"
  shows "\<bar>adjust F n - adjust exact_fp n\<bar> \<le> 4 / 10 ^ 11"
proof (cases "n \<le> 10")
  case True
  with assms show ?thesis by (intro adjust_near_linear)
next
  case False
  then have "11 \<le> n" by simp
  with assms show ?thesis by (intro adjust_near_power)
qed

lemma adjust_exact_range:
  assumes "0 \<le> n" and "n \<le> 255"
  shows "0 \<le> adjust exact_fp n \<and> adjust exact_fp n \<le> 1"
proof -
  define t where "t = real_of_int n / 255"
  have t: "0 \<le> t" "t \<le> 1" using assms by (simp_all add: t_def)
  show ?thesis
  proof (cases "t \<le> 0.03928")
    case True
    with t show ?thesis by (simp add: adjust_exact flip: t_def)
  next
    case False
    have "0 \<le> (t + 0.055) / 1.055" "(t + 0.055) / 1.055 \<le> 1"
      using t by simp_all
    then have "((t + 0.055) / 1.055) powr 2.4 \<le> 1"
      by (intro powr_le1) simp_all
    with False show ?thesis by (simp add: adjust_exact flip: t_def)
  qed
qed

lemma weighted_near:
  assumes F: "float_ok F" and A: "\<bar>A - A0\<bar> \<le> 4 / 10 ^ 11" and A0: "0 \<le> A0" "A0 \<le> 1"
    and w: "0 \<le> w" "w \<le> 1"
  shows "\<bar>fmul F (lit F w) A - w * A0\<bar> \<le> w * (4 / 10 ^ 11) + 3 / 10 ^ 13"
proof -
  define w' where "w' = rnd F w"
  have w': "\<bar>w' - w\<bar> \<le> 1 / 10 ^ 13"
    unfolding w'_def using w by (intro rnd_near13 [OF F]) simp
  have absw: "\<bar>w'\<bar> \<le> w + 1 / 10 ^ 13" using w' w by linarith
  have absA: "\<bar>A0\<bar> \<le> 1" using A0 by simp
  have "\<bar>w' * A - w * A0\<bar> \<le> (w + 1 / 10 ^ 13) * (4 / 10 ^ 11) + (1 / 10 ^ 13) * 1"
    using w' A absw absA by (rule mult_near)
  then have m: "\<bar>w' * A - w * A0\<bar> \<le> w * (4 / 10 ^ 11) + 2 / 10 ^ 13"
    by (simp add: algebra_simps)
  have wA: "0 \<le> w * A0" "w * A0 \<le> 1"
    using w A0 by (simp_all add: mult_le_one)
  have "\<bar>rnd F (w' * A) - w' * A\<bar> \<le> 1 / 10 ^ 13"
  proof (rule rnd_near13 [OF F])
    have "w * (4 / 10 ^ 11) \<le> 1 * (4 / 10 ^ 11)"
      using w by (intro mult_right_mono) simp_all
    with m wA show "\<bar>w' * A\<bar> \<le> 99" by simp
  qed
  with m show ?thesis
    unfolding fmul_def lit_def w'_def [symmetric] by linarith
qed

lemma luminance_exact:
  "rgb_to_luminance exact_fp r g b =
     0.2126 * adjust exact_fp r + 0.7152 * adjust exact_fp g + 0.0722 * adjust exact_fp b"
  by (simp add: rgb_to_luminance_def Let_def fadd_def fmul_def lit_def exact_fp_def)

lemma luminance_exact_range:
  assumes "is_color (r, g, b)"
  shows "0 \<le> rgb_to_luminance exact_fp r g b \<and> rgb_to_luminance exact_fp r g b \<le> 1"
proof -
  from assms have "0 \<le> adjust exact_fp r \<and> adjust exact_fp r \<le> 1"
    and "0 \<le> adjust exact_fp g \<and> adjust exact_fp g \<le> 1"
    and "0 \<le> adjust exact_fp b \<and> adjust exact_fp b \<le> 1"
    by (simp_all add: is_color_def adjust_exact_range)
  then show ?thesis
    unfolding luminance_exact by simp
qed

lemma luminance_near:
  assumes F: "float_ok F" and col: "is_color (r, g, b)"
  shows "\<bar>rgb_to_luminance F r g b - rgb_to_luminance exact_fp r g b\<bar> \<le> 5 / 10 ^ 11"
proof -
  define R where "R = adjust exact_fp r"
  define G where "G = adjust exact_fp g"
  define B where "B = adjust exact_fp b"
  define m1 where "m1 = fmul F (lit F 0.2126) (adjust F r)"
  define m2 where "m2 = fmul F (lit F 0.7152) (adjust F g)"
  define m3 where "m3 = fmul F (lit F 0.0722) (adjust F b)"
  from col have rng: "0 \<le> r" "r \<le> 255" "0 \<le> g" "g \<le> 255" "0 \<le> b" "b \<le> 255"
    by (simp_all add: is_color_def)
  have R: "0 \<le> R" "R \<le> 1" and G: "0 \<le> G" "G \<le> 1" and B: "0 \<le> B" "B \<le> 1"
    using rng by (simp_all add: R_def G_def B_def adjust_exact_range)
  have m1: "\<bar>m1 - 0.2126 * R\<bar> \<le> 0.2126 * (4 / 10 ^ 11) + 3 / 10 ^ 13"
    unfolding m1_def R_def
    by (rule weighted_near [OF F adjust_near [OF F rng(1,2)]])
      (use rng in \<open>simp_all add: adjust_exact_range\<close>)
  have m2: "\<bar>m2 - 0.7152 * G\<bar> \<le> 0.7152 * (4 / 10 ^ 11) + 3 / 10 ^ 13"
    unfolding m2_def G_def
    by (rule weighted_near [OF F adjust_near [OF F rng(3,4)]])
      (use rng in \<open>simp_all add: adjust_exact_range\<close>)
  have m3: "\<bar>m3 - 0.0722 * B\<bar> \<le> 0.0722 * (4 / 10 ^ 11) + 3 / 10 ^ 13"
    unfolding m3_def B_def
    by (rule weighted_near [OF F adjust_near [OF F rng(5,6)]])
      (use rng in \<open>simp_all add: adjust_exact_range\<close>)
  have wR: "0 \<le> 0.2126 * R" "0.2126 * R \<le> 1"
    and wG: "0 \<le> 0.7152 * G" "0.7152 * G \<le> 1"
    and wB: "0 \<le> 0.0722 * B" "0.0722 * B \<le> 1"
    using R G B by (simp_all add: mult_le_one)
  have "\<bar>(m1 + m2) - (0.2126 * R + 0.7152 * G)\<bar>
          \<le> (0.2126 * (4 / 10 ^ 11) + 3 / 10 ^ 13) + (0.7152 * (4 / 10 ^ 11) + 3 / 10 ^ 13)"
    using m1 m2 by (rule add_near)
  then have s1: "\<bar>rnd F (m1 + m2) - (0.2126 * R + 0.7152 * G)\<bar>
          \<le> (0.2126 * (4 / 10 ^ 11) + 3 / 10 ^ 13) + (0.7152 * (4 / 10 ^ 11) + 3 / 10 ^ 13)
              + 1 / 10 ^ 13"
  proof (rule near_rnd13 [OF F])
    show "0.2126 * (4 / 10 ^ 11) + 3 / 10 ^ 13 + (0.7152 * (4 / 10 ^ 11) + 3 / 10 ^ 13) \<le> (1::real)"
      by simp
    show "\<bar>0.2126 * R + 0.7152 * G\<bar> \<le> 98" using wR wG by linarith
  qed
  have "\<bar>(rnd F (m1 + m2) + m3) - (0.2126 * R + 0.7152 * G + 0.0722 * B)\<bar>
          \<le> (0.2126 * (4 / 10 ^ 11) + 3 / 10 ^ 13) + (0.7152 * (4 / 10 ^ 11) + 3 / 10 ^ 13)
              + 1 / 10 ^ 13 + (0.0722 * (4 / 10 ^ 11) + 3 / 10 ^ 13)"
    using s1 m3 by (rule add_near)
  then have s2: "\<bar>rnd F (rnd F (m1 + m2) + m3) - (0.2126 * R + 0.7152 * G + 0.0722 * B)\<bar>
          \<le> (0.2126 * (4 / 10 ^ 11) + 3 / 10 ^ 13) + (0.7152 * (4 / 10 ^ 11) + 3 / 10 ^ 13)
              + 1 / 10 ^ 13 + (0.0722 * (4 / 10 ^ 11) + 3 / 10 ^ 13) + 1 / 10 ^ 13"
  proof (rule near_rnd13 [OF F])
    show "0.2126 * (4 / 10 ^ 11) + 3 / 10 ^ 13 + (0.7152 * (4 / 10 ^ 11) + 3 / 10 ^ 13)
              + 1 / 10 ^ 13 + (0.0722 * (4 / 10 ^ 11) + 3 / 10 ^ 13) \<le> (1::real)"
      by simp
    show "\<bar>0.2126 * R + 0.7152 * G + 0.0722 * B\<bar> \<le> 98" using wR wG wB by linarith
  qed
  have eq1: "rgb_to_luminance F r g b = rnd F (rnd F (m1 + m2) + m3)"
    by (simp add: rgb_to_luminance_def Let_def fadd_def m1_def m2_def m3_def)
  have eq2: "rgb_to_luminance exact_fp r g b = 0.2126 * R + 0.7152 * G + 0.0722 * B"
    by (simp add: luminance_exact R_def G_def B_def)
  show ?thesis
    unfolding eq1 eq2 using s2 by (rule near_weaken) simp
qed

subsection \<open>Exact values and bounds\<close>

text \<open>
  The exponent \<open>2.4\<close> is \<open>12 / 5\<close>, so \<open>lo \<le> x powr 2.4 \<le> hi\<close> follows from
  \<open>lo\<^sup>5 \<le> x\<^sup>1\<^sup>2 \<le> hi\<^sup>5\<close>, a comparison of rational numbers.
\<close>

lemma adjust_exact_0: "adjust exact_fp 0 = 0"
  by (simp add: adjust_exact)

lemma adjust_exact_255: "adjust exact_fp 255 = 1"
  by (simp add: adjust_exact)

lemma luminance_exact_black: "rgb_to_luminance exact_fp 0 0 0 = 0"
  by (simp add: luminance_exact adjust_exact_0)

lemma luminance_exact_white: "rgb_to_luminance exact_fp 255 255 255 = 1"
  by (simp add: luminance_exact adjust_exact_255)

lemma power5_le_iff:
  fixes a b :: real
  assumes "0 \<le> a" and "0 \<le> b"
  shows "a ^ 5 \<le> b ^ 5 \<longleftrightarrow> a \<le> b"
  using assms by (intro power_mono_iff) simp_all

lemma powr_24_pow5:
  fixes x :: real
  assumes "0 < x"
  shows "(x powr 2.4) ^ 5 = x ^ 12"
proof -
  have "(x powr 2.4) ^ 5 = (x powr 2.4) powr 5"
    using powr_realpow [of "x powr 2.4" 5] assms by simp
  also have "\<dots> = x powr 12"
    by (simp add: powr_powr)
  also have "\<dots> = x ^ 12"
    using powr_realpow [of x 12] assms by simp
  finally show ?thesis .
qed

lemma powr_24_lower:
  fixes x lo :: real
  assumes "0 < x" and "0 \<le> lo" and "lo ^ 5 \<le> x ^ 12"
  shows "lo \<le> x powr 2.4"
proof -
  have "lo ^ 5 \<le> (x powr 2.4) ^ 5"
    using assms(3) by (simp only: powr_24_pow5 [OF assms(1)])
  then show ?thesis
    by (simp only: power5_le_iff [OF assms(2) powr_ge_zero])
qed

lemma powr_24_upper:
  fixes x hi :: real
  assumes "0 < x" and "0 \<le> hi" and "x ^ 12 \<le> hi ^ 5"
  shows "x powr 2.4 \<le> hi"
proof -
  have "(x powr 2.4) ^ 5 \<le> hi ^ 5"
    using assms(3) by (simp only: powr_24_pow5 [OF assms(1)])
  then show ?thesis
    by (simp only: power5_le_iff [OF powr_ge_zero assms(2)])
qed

lemma adjust_exact_lower:
  assumes "11 \<le> n" and "0 \<le> lo"
    and "lo ^ 5 \<le> ((real_of_int n / 255 + 0.055) / 1.055) ^ 12"
  shows "lo \<le> adjust exact_fp n"
  unfolding adjust_exact_power [OF assms(1)]
  using _ assms(2,3) by (rule powr_24_lower) (use assms(1) in simp)

lemma adjust_exact_upper:
  assumes "11 \<le> n" and "0 \<le> hi"
    and "((real_of_int n / 255 + 0.055) / 1.055) ^ 12 \<le> hi ^ 5"
  shows "adjust exact_fp n \<le> hi"
  unfolding adjust_exact_power [OF assms(1)]
  using _ assms(2,3) by (rule powr_24_upper) (use assms(1) in simp)

lemma adjust_exact_39:
  "20288 / 10 ^ 6 \<le> adjust exact_fp 39" "adjust exact_fp 39 \<le> 20289 / 10 ^ 6"
  by (rule adjust_exact_lower; simp add: power_divide)
    (rule adjust_exact_upper; simp add: power_divide)

lemma adjust_exact_174:
  "423267 / 10 ^ 6 \<le> adjust exact_fp 174" "adjust exact_fp 174 \<le> 423268 / 10 ^ 6"
  by (rule adjust_exact_lower; simp add: power_divide)
    (rule adjust_exact_upper; simp add: power_divide)

lemma adjust_exact_96:
  "116970 / 10 ^ 6 \<le> adjust exact_fp 96" "adjust exact_fp 96 \<le> 116971 / 10 ^ 6"
  by (rule adjust_exact_lower; simp add: power_divide)
    (rule adjust_exact_upper; simp add: power_divide)

lemma luminance_exact_normal:
  "315479 / 10 ^ 6 \<le> rgb_to_luminance exact_fp 39 174 96"
  "rgb_to_luminance exact_fp 39 174 96 \<le> 315481 / 10 ^ 6"
  unfolding luminance_exact
  using adjust_exact_39 adjust_exact_174 adjust_exact_96 by simp_all

text \<open>
  Every colour but white has a luminance visibly below \<open>1\<close>, and every colour but black a
  luminance visibly above \<open>0\<close>.
\<close>

lemma adjust_exact_below_white:
  assumes "0 \<le> n" and "n \<le> 254"
  shows "adjust exact_fp n \<le> 992 / 1000"
proof (cases "n \<le> 10")
  case True
  have "real_of_int n / 255 / 12.92 \<le> 10 / 255 / 12.92"
    using True by (intro divide_right_mono) simp_all
  then show ?thesis
    unfolding adjust_exact_linear [OF True] by simp
next
  case False
  then have n: "11 \<le> n" by simp
  define x where "x = (real_of_int n / 255 + 0.055) / 1.055"
  have x: "0 \<le> x" "x \<le> (254 / 255 + 0.055) / 1.055"
    using assms by (simp_all add: x_def)
  have "x ^ 12 \<le> ((254 / 255 + 0.055) / 1.055) ^ 12"
    using x by (rule power_mono [rotated])
  also have "\<dots> \<le> (992 / 1000) ^ 5"
    by (simp add: power_divide)
  finally show ?thesis
    unfolding x_def by (intro adjust_exact_upper [OF n]) simp_all
qed

lemma adjust_exact_above_black:
  assumes "1 \<le> n" and "n \<le> 255"
  shows "3 / 10 ^ 4 \<le> adjust exact_fp n"
proof (cases "n \<le> 10")
  case True
  have "1 / 255 / 12.92 \<le> real_of_int n / 255 / 12.92"
    using assms by (intro divide_right_mono) simp_all
  then show ?thesis
    unfolding adjust_exact_linear [OF True] by simp
next
  case False
  then have n: "11 \<le> n" by simp
  define x where "x = (real_of_int n / 255 + 0.055) / 1.055"
  have x: "(11 / 255 + 0.055) / 1.055 \<le> x"
    using n by (simp add: x_def)
  have "(3 / 10 ^ 4) ^ 5 \<le> ((11 / 255 + 0.055) / 1.055 :: real) ^ 12"
    by (simp add: power_divide)
  also have "\<dots> \<le> x ^ 12"
    using x by (intro power_mono) simp_all
  finally show ?thesis
    unfolding x_def by (intro adjust_exact_lower [OF n]) simp_all
qed

lemma luminance_exact_not_white:
  assumes "is_color (r, g, b)" and "(r, g, b) \<noteq> (255, 255, 255)"
  shows "rgb_to_luminance exact_fp r g b \<le> 1 - 5 / 10 ^ 4"
proof -
  from assms(1) have rng: "0 \<le> r" "r \<le> 255" "0 \<le> g" "g \<le> 255" "0 \<le> b" "b \<le> 255"
    by (simp_all add: is_color_def)
  define R where "R = adjust exact_fp r"
  define G where "G = adjust exact_fp g"
  define B where "B = adjust exact_fp b"
  have le1: "R \<le> 1" "G \<le> 1" "B \<le> 1"
    using rng by (simp_all add: R_def G_def B_def adjust_exact_range)
  from assms(2) rng consider "r \<le> 254" | "g \<le> 254" | "b \<le> 254"
    by force
  then have "R \<le> 992 / 1000 \<or> G \<le> 992 / 1000 \<or> B \<le> 992 / 1000"
    unfolding R_def G_def B_def
    using adjust_exact_below_white [OF rng(1)] adjust_exact_below_white [OF rng(3)]
      adjust_exact_below_white [OF rng(5)]
    by cases blast+
  then have "0.2126 * R + 0.7152 * G + 0.0722 * B \<le> 1 - 5 / 10 ^ 4"
    using le1 by auto
  then show ?thesis
    by (simp only: luminance_exact R_def G_def B_def)
qed

lemma luminance_exact_not_black:
  assumes "is_color (r, g, b)" and "(r, g, b) \<noteq> (0, 0, 0)"
  shows "2 / 10 ^ 5 \<le> rgb_to_luminance exact_fp r g b"
proof -
  from assms(1) have rng: "0 \<le> r" "r \<le> 255" "0 \<le> g" "g \<le> 255" "0 \<le> b" "b \<le> 255"
    by (simp_all add: is_color_def)
  define R where "R = adjust exact_fp r"
  define G where "G = adjust exact_fp g"
  define B where "B = adjust exact_fp b"
  have ge0: "0 \<le> R" "0 \<le> G" "0 \<le> B"
    using rng by (simp_all add: R_def G_def B_def adjust_exact_range)
  from assms(2) rng consider "1 \<le> r" | "1 \<le> g" | "1 \<le> b"
    by force
  then have "3 / 10 ^ 4 \<le> R \<or> 3 / 10 ^ 4 \<le> G \<or> 3 / 10 ^ 4 \<le> B"
    unfolding R_def G_def B_def
    using adjust_exact_above_black [OF _ rng(2)] adjust_exact_above_black [OF _ rng(4)]
      adjust_exact_above_black [OF _ rng(6)]
    by cases blast+
  then have "2 / 10 ^ 5 \<le> 0.2126 * R + 0.7152 * G + 0.0722 * B"
    using ge0 by auto
  then show ?thesis
    by (simp only: luminance_exact R_def G_def B_def)
qed

section \<open>Properties of the contrast ratio\<close>

lemma ratio_withinI: "res = Inr q \<Longrightarrow> lo \<le> q \<Longrightarrow> q \<le> hi \<Longrightarrow> ratio_within lo hi res"
  by (simp add: ratio_within_def)

lemma ratio_withinE:
  assumes "ratio_within lo hi res"
  obtains q where "res = Inr q" "lo \<le> q" "q \<le> hi"
  using assms by (cases res) (simp_all add: ratio_within_def)

lemma contrast_exact:
  assumes "is_color (r1, g1, b1)" and "is_color (r2, g2, b2)"
  shows "contrast_ratio exact_fp (Rgb (r1, g1, b1)) (Rgb (r2, g2, b2)) =
         Inr ((max (rgb_to_luminance exact_fp r1 g1 b1) (rgb_to_luminance exact_fp r2 g2 b2) + 0.05) /
              (min (rgb_to_luminance exact_fp r1 g1 b1) (rgb_to_luminance exact_fp r2 g2 b2) + 0.05))"
proof -
  note l1 = luminance_exact_range [OF assms(1)] and l2 = luminance_exact_range [OF assms(2)]
  have "min (rgb_to_luminance exact_fp r1 g1 b1) (rgb_to_luminance exact_fp r2 g2 b2) + 0.05 \<noteq> 0"
    using l1 l2 by (simp add: min_def)
  then show ?thesis
    by (simp add: contrast_ratio_def resolve_def Let_def truediv_def fdiv_def fadd_def lit_def
        exact_fp_def)
qed

lemma ratio_range:
  fixes hi lo :: real
  assumes "0 \<le> lo" and "lo \<le> hi" and "hi \<le> 1"
  shows "1 \<le> (hi + 0.05) / (lo + 0.05)" and "(hi + 0.05) / (lo + 0.05) \<le> 21"
  using assms by (simp_all add: field_simps)

lemma contrast_exact_range:
  assumes "is_color (r1, g1, b1)" and "is_color (r2, g2, b2)"
  shows "ratio_within 1 21 (contrast_ratio exact_fp (Rgb (r1, g1, b1)) (Rgb (r2, g2, b2)))"
proof -
  define L1 where "L1 = rgb_to_luminance exact_fp r1 g1 b1"
  define L2 where "L2 = rgb_to_luminance exact_fp r2 g2 b2"
  have l: "0 \<le> L1" "L1 \<le> 1" "0 \<le> L2" "L2 \<le> 1"
    using luminance_exact_range [OF assms(1)] luminance_exact_range [OF assms(2)]
    by (simp_all add: L1_def L2_def)
  have "0 \<le> min L1 L2" "min L1 L2 \<le> max L1 L2" "max L1 L2 \<le> 1"
    using l by simp_all
  from ratio_range [OF this] show ?thesis
    by (simp add: contrast_exact [OF assms] ratio_within_def L1_def L2_def)
qed

text \<open>
  The float computation of \<open>contrast_ratio\<close> on two colours: the divisor is at least
  \<open>0.04\<close>, so the division does not raise, and numerator and divisor are close to their
  exact values. The ratio then differs from the exact one by at most \<open>10\<^sup>-\<^sup>7\<close>.
\<close>

lemma contrast_float:
  assumes F: "float_ok F" and c1: "is_color (r1, g1, b1)" and c2: "is_color (r2, g2, b2)"
  defines "M1 \<equiv> rgb_to_luminance F r1 g1 b1" and "M2 \<equiv> rgb_to_luminance F r2 g2 b2"
    and "L1 \<equiv> rgb_to_luminance exact_fp r1 g1 b1" and "L2 \<equiv> rgb_to_luminance exact_fp r2 g2 b2"
  shows "contrast_ratio F (Rgb (r1, g1, b1)) (Rgb (r2, g2, b2)) =
           Inr (rnd F (rnd F (max M1 M2 + rnd F 0.05) / rnd F (min M1 M2 + rnd F 0.05)))"
    and "4 / 100 \<le> rnd F (min M1 M2 + rnd F 0.05)"
    and "\<bar>rnd F (max M1 M2 + rnd F 0.05) - (max L1 L2 + 0.05)\<bar> \<le> 6 / 10 ^ 11"
    and "\<bar>rnd F (min M1 M2 + rnd F 0.05) - (min L1 L2 + 0.05)\<bar> \<le> 6 / 10 ^ 11"
proof -
  define k where "k = rnd F 0.05"
  define N where "N = rnd F (max M1 M2 + k)"
  define D where "D = rnd F (min M1 M2 + k)"
  define N0 where "N0 = max L1 L2 + 0.05"
  define D0 where "D0 = min L1 L2 + 0.05"
  have l: "0 \<le> L1" "L1 \<le> 1" "0 \<le> L2" "L2 \<le> 1"
    using luminance_exact_range [OF c1] luminance_exact_range [OF c2]
    by (simp_all add: L1_def L2_def)
  have m: "\<bar>M1 - L1\<bar> \<le> 5 / 10 ^ 11" "\<bar>M2 - L2\<bar> \<le> 5 / 10 ^ 11"
    unfolding M1_def M2_def L1_def L2_def
    by (rule luminance_near [OF F c1], rule luminance_near [OF F c2])
  note mx = max_near [OF m]
  have k: "\<bar>k - 0.05\<bar> \<le> 1 / 10 ^ 13"
    unfolding k_def by (intro rnd_near13 [OF F]) simp
  have N0: "0 \<le> N0" "N0 \<le> 2" and D0: "5 / 100 \<le> D0" "D0 \<le> 2"
    using l by (simp_all add: N0_def D0_def)
  have "\<bar>(max M1 M2 + k) - (max L1 L2 + 0.05)\<bar> \<le> 5 / 10 ^ 11 + 1 / 10 ^ 13"
    using mx(1) k by (rule add_near)
  then have "\<bar>N - N0\<bar> \<le> 5 / 10 ^ 11 + 1 / 10 ^ 13 + 1 / 10 ^ 13"
    unfolding N_def N0_def
  proof (rule near_rnd13 [OF F])
    show "5 / 10 ^ 11 + 1 / 10 ^ 13 \<le> (1::real)" by simp
    show "\<bar>max L1 L2 + 0.05\<bar> \<le> 98" using N0 unfolding N0_def by linarith
  qed
  then have N: "\<bar>N - N0\<bar> \<le> 6 / 10 ^ 11" by (rule near_weaken) simp
  have "\<bar>(min M1 M2 + k) - (min L1 L2 + 0.05)\<bar> \<le> 5 / 10 ^ 11 + 1 / 10 ^ 13"
    using mx(2) k by (rule add_near)
  then have "\<bar>D - D0\<bar> \<le> 5 / 10 ^ 11 + 1 / 10 ^ 13 + 1 / 10 ^ 13"
    unfolding D_def D0_def
  proof (rule near_rnd13 [OF F])
    show "5 / 10 ^ 11 + 1 / 10 ^ 13 \<le> (1::real)" by simp
    show "\<bar>min L1 L2 + 0.05\<bar> \<le> 98" using D0 unfolding D0_def by linarith
  qed
  then have D: "\<bar>D - D0\<bar> \<le> 6 / 10 ^ 11" by (rule near_weaken) simp
  have "4 / 100 + 6 / 10 ^ 11 \<le> (5 / 100 :: real)" by simp
  with D0 have "4 / 100 + 6 / 10 ^ 11 \<le> D0" by linarith
  with D have Dlow: "4 / 100 \<le> D"
    by (rule lower_from_near)
  then show "4 / 100 \<le> rnd F (min M1 M2 + rnd F 0.05)"
    by (simp only: D_def k_def)
  from N show "\<bar>rnd F (max M1 M2 + rnd F 0.05) - (max L1 L2 + 0.05)\<bar> \<le> 6 / 10 ^ 11"
    by (simp only: N_def N0_def k_def)
  from D show "\<bar>rnd F (min M1 M2 + rnd F 0.05) - (min L1 L2 + 0.05)\<bar> \<le> 6 / 10 ^ 11"
    by (simp only: D_def D0_def k_def)
  from Dlow have "D \<noteq> 0" by simp
  then show "contrast_ratio F (Rgb (r1, g1, b1)) (Rgb (r2, g2, b2)) =
           Inr (rnd F (rnd F (max M1 M2 + rnd F 0.05) / rnd F (min M1 M2 + rnd F 0.05)))"
    by (simp add: contrast_ratio_def resolve_def Let_def truediv_def fdiv_def fadd_def lit_def
        D_def k_def M1_def M2_def)
qed

lemma contrast_near:
  assumes F: "float_ok F" and c1: "is_color (r1, g1, b1)" and c2: "is_color (r2, g2, b2)"
  shows "\<exists>q q0. contrast_ratio F (Rgb (r1, g1, b1)) (Rgb (r2, g2, b2)) = Inr q \<and>
           contrast_ratio exact_fp (Rgb (r1, g1, b1)) (Rgb (r2, g2, b2)) = Inr q0 \<and>
           \<bar>q - q0\<bar> \<le> 1 / 10 ^ 7"
proof -
  define L1 where "L1 = rgb_to_luminance exact_fp r1 g1 b1"
  define L2 where "L2 = rgb_to_luminance exact_fp r2 g2 b2"
  define M1 where "M1 = rgb_to_luminance F r1 g1 b1"
  define M2 where "M2 = rgb_to_luminance F r2 g2 b2"
  define N where "N = rnd F (max M1 M2 + rnd F 0.05)"
  define D where "D = rnd F (min M1 M2 + rnd F 0.05)"
  define N0 where "N0 = max L1 L2 + 0.05"
  define D0 where "D0 = min L1 L2 + 0.05"
  note cf = contrast_float [OF F c1 c2, folded M1_def M2_def L1_def L2_def,
      folded N_def D_def N0_def D0_def]
  have l: "0 \<le> L1" "L1 \<le> 1" "0 \<le> L2" "L2 \<le> 1"
    using luminance_exact_range [OF c1] luminance_exact_range [OF c2]
    by (simp_all add: L1_def L2_def)
  have N0: "0 \<le> N0" "N0 \<le> 2" and D0: "5 / 100 \<le> D0" "D0 \<le> 2"
    using l by (simp_all add: N0_def D0_def)
  have "\<bar>N / D - N0 / D0\<bar> \<le> (6 / 10 ^ 11) / (4 / 100) + 2 * (6 / 10 ^ 11) / ((4 / 100) * (4 / 100))"
    using cf(3) cf(4) _ cf(2)
  proof (rule div_near)
    show "(0::real) < 4 / 100" by simp
    show "4 / 100 \<le> D0" using D0 by linarith
    show "\<bar>N0\<bar> \<le> 2" using N0 by linarith
  qed
  then have q: "\<bar>N / D - N0 / D0\<bar> \<le> 9 / 10 ^ 8" by (rule near_weaken) simp
  have q0: "1 \<le> N0 / D0" "N0 / D0 \<le> 21"
    unfolding N0_def D0_def using l by (intro ratio_range; simp)+
  have "\<bar>rnd F (N / D) - N0 / D0\<bar> \<le> 9 / 10 ^ 8 + 1 / 10 ^ 13"
    using q
  proof (rule near_rnd13 [OF F])
    show "9 / 10 ^ 8 \<le> (1::real)" by simp
    show "\<bar>N0 / D0\<bar> \<le> 98" using q0 by linarith
  qed
  then have near: "\<bar>rnd F (N / D) - N0 / D0\<bar> \<le> 1 / 10 ^ 7" by (rule near_weaken) simp
  have eq2: "contrast_ratio exact_fp (Rgb (r1, g1, b1)) (Rgb (r2, g2, b2)) = Inr (N0 / D0)"
    by (simp add: contrast_exact [OF c1 c2] N0_def D0_def L1_def L2_def)
  from cf(1) eq2 near show ?thesis by blast
qed

lemma contrast_exact_black_white:
  "contrast_ratio exact_fp (Rgb (0, 0, 0)) (Rgb (255, 255, 255)) = Inr 21"
  by (simp add: contrast_exact [OF is_color_black is_color_white] luminance_exact_black
      luminance_exact_white)

lemma contrast_exact_white_normal:
  "\<exists>q0. contrast_ratio exact_fp (Rgb (255, 255, 255)) (Rgb (39, 174, 96)) = Inr q0 \<and>
        28729 / 10 ^ 4 + 1 / 10 ^ 6 \<le> q0 \<and> q0 \<le> 2873 / 10 ^ 3 - 1 / 10 ^ 6"
proof -
  define L where "L = rgb_to_luminance exact_fp 39 174 96"
  have L: "315479 / 10 ^ 6 \<le> L" "L \<le> 315481 / 10 ^ 6"
    using luminance_exact_normal by (simp_all add: L_def)
  have mx: "max 1 L = 1" and mn: "min 1 L = L"
    using L by simp_all
  have eq: "contrast_ratio exact_fp (Rgb (255, 255, 255)) (Rgb (39, 174, 96)) =
        Inr ((1 + 0.05) / (L + 0.05))"
    by (simp only: contrast_exact [OF is_color_white is_color_normal] luminance_exact_white
        L_def [symmetric] mx mn)
  have pos: "0 < L + 0.05" using L by simp
  have "28729 / 10 ^ 4 + 1 / 10 ^ 6 \<le> (1 + 0.05) / (L + 0.05)"
    using L pos by (simp add: field_simps)
  moreover have "(1 + 0.05) / (L + 0.05) \<le> 2873 / 10 ^ 3 - 1 / 10 ^ 6"
    using L pos by (simp add: field_simps)
  ultimately show ?thesis using eq by blast
qed

lemma contrast_white_normal_near:
  assumes "float_ok F"
  shows "ratio_within 2.8729 2.873 (contrast_ratio F (Str ''#ffffff'') (Str ''#27ae60''))"
proof -
  from contrast_exact_white_normal obtain q0
    where q0: "contrast_ratio exact_fp (Rgb (255, 255, 255)) (Rgb (39, 174, 96)) = Inr q0"
      and b: "28729 / 10 ^ 4 + 1 / 10 ^ 6 \<le> q0" "q0 \<le> 2873 / 10 ^ 3 - 1 / 10 ^ 6"
    by blast
  from contrast_near [OF assms is_color_white is_color_normal] q0
  obtain q where q: "contrast_ratio F (Rgb (255, 255, 255)) (Rgb (39, 174, 96)) = Inr q"
    and near: "\<bar>q - q0\<bar> \<le> 1 / 10 ^ 7"
    by auto
  from near have "\<bar>q - q0\<bar> \<le> 1 / 10 ^ 6" by (rule near_weaken) simp
  with b have "28729 / 10 ^ 4 \<le> q \<and> q \<le> 2873 / 10 ^ 3" by linarith
  then have "2.8729 \<le> q \<and> q \<le> 2.873" by simp
  with q show ?thesis
    by (simp only: contrast_hex_white_normal ratio_within_def sum.case)
qed

text \<open>
  The range. With monotone rounding the numerator is at least the divisor, so the ratio is
  at least \<open>1\<close>. A pair other than black and white has an exact ratio below \<open>20.999\<close>, which
  the rounding error cannot lift above \<open>21\<close>.
\<close>

lemma contrast_lower:
  assumes F: "float_ok F" and mono: "mono (rnd F)"
    and c1: "is_color (r1, g1, b1)" and c2: "is_color (r2, g2, b2)"
  shows "\<exists>q. contrast_ratio F (Rgb (r1, g1, b1)) (Rgb (r2, g2, b2)) = Inr q \<and> 1 \<le> q"
proof -
  define M1 where "M1 = rgb_to_luminance F r1 g1 b1"
  define M2 where "M2 = rgb_to_luminance F r2 g2 b2"
  define N where "N = rnd F (max M1 M2 + rnd F 0.05)"
  define D where "D = rnd F (min M1 M2 + rnd F 0.05)"
  note cf = contrast_float [OF F c1 c2, folded M1_def M2_def, folded N_def D_def]
  have "min M1 M2 + rnd F 0.05 \<le> max M1 M2 + rnd F 0.05" by simp
  with mono have "D \<le> N"
    unfolding D_def N_def by (rule monoD)
  moreover have "0 < D" using cf(2) by simp
  ultimately have "1 \<le> N / D" by simp
  with mono have "rnd F 1 \<le> rnd F (N / D)" by (rule monoD)
  then have "1 \<le> rnd F (N / D)" by (simp add: rnd_1 [OF F])
  with cf(1) show ?thesis by blast
qed

lemma ratio_upper_not_white:
  fixes hi lo :: real
  assumes "0 \<le> lo" and "lo \<le> hi" and "hi \<le> 1 - 5 / 10 ^ 4"
  shows "(hi + 0.05) / (lo + 0.05) \<le> 21 - 1 / 10 ^ 3"
proof -
  have "0 \<le> hi + 0.05" using assms by simp
  then have "(hi + 0.05) / (lo + 0.05) \<le> (hi + 0.05) / 0.05"
    using assms by (intro divide_left_mono) (auto intro!: mult_pos_pos)
  also have "\<dots> \<le> 21 - 1 / 10 ^ 3" using assms by simp
  finally show ?thesis .
qed

lemma ratio_upper_not_black:
  fixes hi lo :: real
  assumes "2 / 10 ^ 5 \<le> lo" and "hi \<le> 1"
  shows "(hi + 0.05) / (lo + 0.05) \<le> 21 - 1 / 10 ^ 3"
proof -
  have "(hi + 0.05) / (lo + 0.05) \<le> (1 + 0.05) / (lo + 0.05)"
    using assms by (intro divide_right_mono) simp_all
  also have "\<dots> \<le> (1 + 0.05) / (2 / 10 ^ 5 + 0.05)"
    using assms by (intro divide_left_mono) (auto intro!: mult_pos_pos)
  also have "\<dots> \<le> 21 - 1 / 10 ^ 3" by simp
  finally show ?thesis .
qed

lemma contrast_exact_not_extreme:
  assumes c1: "is_color (r1, g1, b1)" and c2: "is_color (r2, g2, b2)"
    and ne: "((r1, g1, b1) \<noteq> (255, 255, 255) \<and> (r2, g2, b2) \<noteq> (255, 255, 255)) \<or>
             ((r1, g1, b1) \<noteq> (0, 0, 0) \<and> (r2, g2, b2) \<noteq> (0, 0, 0))"
  shows "\<exists>q0. contrast_ratio exact_fp (Rgb (r1, g1, b1)) (Rgb (r2, g2, b2)) = Inr q0 \<and>
           q0 \<le> 21 - 1 / 10 ^ 3"
proof -
  define L1 where "L1 = rgb_to_luminance exact_fp r1 g1 b1"
  define L2 where "L2 = rgb_to_luminance exact_fp r2 g2 b2"
  have l: "0 \<le> L1" "L1 \<le> 1" "0 \<le> L2" "L2 \<le> 1"
    using luminance_exact_range [OF c1] luminance_exact_range [OF c2]
    by (simp_all add: L1_def L2_def)
  have eq: "contrast_ratio exact_fp (Rgb (r1, g1, b1)) (Rgb (r2, g2, b2)) =
        Inr ((max L1 L2 + 0.05) / (min L1 L2 + 0.05))"
    by (simp only: contrast_exact [OF c1 c2] L1_def L2_def)
  from ne have "(max L1 L2 + 0.05) / (min L1 L2 + 0.05) \<le> 21 - 1 / 10 ^ 3"
  proof
    assume "(r1, g1, b1) \<noteq> (255, 255, 255) \<and> (r2, g2, b2) \<noteq> (255, 255, 255)"
    then have "L1 \<le> 1 - 5 / 10 ^ 4" "L2 \<le> 1 - 5 / 10 ^ 4"
      unfolding L1_def L2_def
      using luminance_exact_not_white [OF c1] luminance_exact_not_white [OF c2] by blast+
    then have "max L1 L2 \<le> 1 - 5 / 10 ^ 4" by simp
    moreover have "0 \<le> min L1 L2" "min L1 L2 \<le> max L1 L2" using l by simp_all
    ultimately show ?thesis by (intro ratio_upper_not_white)
  next
    assume "(r1, g1, b1) \<noteq> (0, 0, 0) \<and> (r2, g2, b2) \<noteq> (0, 0, 0)"
    then have "2 / 10 ^ 5 \<le> L1" "2 / 10 ^ 5 \<le> L2"
      unfolding L1_def L2_def
      using luminance_exact_not_black [OF c1] luminance_exact_not_black [OF c2] by blast+
    then have "2 / 10 ^ 5 \<le> min L1 L2" by simp
    moreover have "max L1 L2 \<le> 1" using l by simp
    ultimately show ?thesis by (intro ratio_upper_not_black)
  qed
  with eq show ?thesis by blast
qed

lemma contrast_upper_not_extreme:
  assumes F: "float_ok F" and c1: "is_color (r1, g1, b1)" and c2: "is_color (r2, g2, b2)"
    and ne: "((r1, g1, b1) \<noteq> (255, 255, 255) \<and> (r2, g2, b2) \<noteq> (255, 255, 255)) \<or>
             ((r1, g1, b1) \<noteq> (0, 0, 0) \<and> (r2, g2, b2) \<noteq> (0, 0, 0))"
  shows "\<exists>q. contrast_ratio F (Rgb (r1, g1, b1)) (Rgb (r2, g2, b2)) = Inr q \<and> q \<le> 21"
proof -
  from contrast_exact_not_extreme [OF c1 c2 ne] obtain q0
    where q0: "contrast_ratio exact_fp (Rgb (r1, g1, b1)) (Rgb (r2, g2, b2)) = Inr q0"
      and b: "q0 \<le> 21 - 1 / 10 ^ 3"
    by blast
  from contrast_near [OF F c1 c2] q0
  obtain q where q: "contrast_ratio F (Rgb (r1, g1, b1)) (Rgb (r2, g2, b2)) = Inr q"
    and near: "\<bar>q - q0\<bar> \<le> 1 / 10 ^ 7"
    by auto
  from near have "\<bar>q - q0\<bar> \<le> 1 / 10 ^ 3" by (rule near_weaken) simp
  with b have "q \<le> 21" by linarith
  with q show ?thesis by blast
qed

lemma contrast_range_float:
  assumes F: "float_ok F" and mono: "mono (rnd F)"
    and ext: "ratio_within 1 21 (contrast_ratio F (Rgb (0, 0, 0)) (Rgb (255, 255, 255)))"
    and c1: "is_color a" and c2: "is_color b"
  shows "ratio_within 1 21 (contrast_ratio F (Rgb a) (Rgb b))"
proof -
  obtain r1 g1 b1 where a: "a = (r1, g1, b1)" by (cases a)
  obtain r2 g2 b2 where b: "b = (r2, g2, b2)" by (cases b)
  note c1' = c1 [unfolded a] and c2' = c2 [unfolded b]
  define white :: rgb where "white = (255, 255, 255)"
  define black :: rgb where "black = (0, 0, 0)"
  have "white \<noteq> black" by (simp add: white_def black_def)
  then consider (bw) "a = black" "b = white"
    | (wb) "a = white" "b = black"
    | (other) "(a \<noteq> white \<and> b \<noteq> white) \<or> (a \<noteq> black \<and> b \<noteq> black)"
    by blast
  then consider (bw) "a = (0, 0, 0)" "b = (255, 255, 255)"
    | (wb) "a = (255, 255, 255)" "b = (0, 0, 0)"
    | (other) "(a \<noteq> (255, 255, 255) \<and> b \<noteq> (255, 255, 255)) \<or> (a \<noteq> (0, 0, 0) \<and> b \<noteq> (0, 0, 0))"
    unfolding white_def black_def by metis
  then show ?thesis
  proof cases
    case bw
    with ext show ?thesis by simp
  next
    case wb
    with ext show ?thesis by (simp add: contrast_ratio_sym [of F "Rgb (255, 255, 255)"])
  next
    case other
    then have ne: "((r1, g1, b1) \<noteq> (255, 255, 255) \<and> (r2, g2, b2) \<noteq> (255, 255, 255)) \<or>
             ((r1, g1, b1) \<noteq> (0, 0, 0) \<and> (r2, g2, b2) \<noteq> (0, 0, 0))"
      by (simp only: a b)
    from contrast_upper_not_extreme [OF F c1' c2' ne] obtain q
      where q: "contrast_ratio F (Rgb (r1, g1, b1)) (Rgb (r2, g2, b2)) = Inr q" and hi: "q \<le> 21"
      by blast
    from contrast_lower [OF F mono c1' c2'] q have "1 \<le> q" by auto
    with q hi show ?thesis
      unfolding a b by (intro ratio_withinI)
  qed
qed

section \<open>Properties of binary64 rounding\<close>

text \<open>
  Rounding to nearest even is within half a unit of its argument, fixes the integers and
  is monotone; \<open>round64\<close> inherits a relative error of \<open>2\<^sup>-\<^sup>5\<^sup>0\<close>, exactness on the
  integers up to \<open>2\<^sup>5\<^sup>3\<close> and monotonicity, so that \<open>binary64 pw\<close> meets \<open>float_ok\<close> whenever
  \<open>pw\<close> meets \<open>pow_ok\<close>. The constants of the script are then rounded one by one
  (\<open>round64_eval\<close>), which evaluates the ratio of black against white to \<open>21\<close> exactly.
\<close>

lemma round_even_cases:
  "round_even y = \<lfloor>y\<rfloor> \<or> round_even y = \<lfloor>y\<rfloor> + 1"
  by (simp add: round_even_def Let_def)

lemma round_even_near: "\<bar>of_int (round_even y) - y\<bar> \<le> 1 / 2"
proof -
  have "of_int \<lfloor>y\<rfloor> \<le> y" "y < of_int \<lfloor>y\<rfloor> + 1" by linarith+
  then show ?thesis
    by (auto simp: round_even_def Let_def) 
qed

lemma round_even_eqI:
  assumes "\<bar>y - of_int m\<bar> < 1 / 2"
  shows "round_even y = m"
proof (cases "of_int m \<le> y")
  case True
  with assms have "\<lfloor>y\<rfloor> = m" by (intro floor_unique) linarith+
  with assms True show ?thesis by (simp add: round_even_def Let_def)
next
  case False
  have m1: "real_of_int (m - 1) = of_int m - 1" by simp
  from assms False have "of_int (m - 1) \<le> y" "y < of_int (m - 1) + 1"
    unfolding m1 by linarith+
  then have f: "\<lfloor>y\<rfloor> = m - 1" by (rule floor_unique)
  from assms False have "1 / 2 < y - of_int (m - 1)"
    unfolding m1 by linarith
  with f show ?thesis by (simp add: round_even_def Let_def)
qed

lemma round_even_of_int: "round_even (of_int k) = k"
  by (rule round_even_eqI) simp

lemma round_even_mono:
  assumes "y \<le> z"
  shows "round_even y \<le> round_even z"
proof (cases "\<lfloor>y\<rfloor> = \<lfloor>z\<rfloor>")
  case True
  with assms show ?thesis
    by (auto simp: round_even_def Let_def)
next
  case False
  with assms have "\<lfloor>y\<rfloor> + 1 \<le> \<lfloor>z\<rfloor>"
    using floor_mono [OF assms] by linarith
  moreover have "round_even y \<le> \<lfloor>y\<rfloor> + 1" "\<lfloor>z\<rfloor> \<le> round_even z"
    using round_even_cases [of y] round_even_cases [of z] by linarith+
  ultimately show ?thesis by linarith
qed

lemma b64_ulp_pos: "0 < b64_ulp x"
  by (simp add: b64_ulp_def)

lemma powr_2_int_le:
  fixes x :: real
  assumes "0 < x"
  shows "2 powr of_int \<lfloor>log 2 x\<rfloor> \<le> x" and "x < 2 powr (of_int \<lfloor>log 2 x\<rfloor> + 1)"
  using floor_log_eq_powr_iff [of x 2 "\<lfloor>log 2 x\<rfloor>"] assms by simp_all

lemma b64_ulp_bound:
  assumes "0 < x"
  shows "b64_ulp x \<le> x / 2 ^ 52 \<or> b64_ulp x = 1 / 2 ^ 1074"
proof (cases "- 1022 \<le> \<lfloor>log 2 x\<rfloor>")
  case True
  then have e: "b64_exponent x = \<lfloor>log 2 x\<rfloor>"
    by (simp add: b64_exponent_def)
  have "b64_ulp x = 2 powr of_int \<lfloor>log 2 x\<rfloor> / 2 powr 52"
    by (simp add: b64_ulp_def e powr_diff)
  also have "\<dots> = 2 powr of_int \<lfloor>log 2 x\<rfloor> / 2 ^ 52"
    using powr_realpow [of 2 52] by simp
  also have "\<dots> \<le> x / 2 ^ 52"
    using powr_2_int_le(1) [OF assms] by (intro divide_right_mono) simp_all
  finally show ?thesis by blast
next
  case False
  then have e: "b64_exponent x = - 1022"
    by (simp add: b64_exponent_def)
  have "b64_ulp x = 2 powr (- 1074)"
    by (simp add: b64_ulp_def e)
  also have "\<dots> = 1 / 2 powr 1074"
    by (simp add: powr_minus_divide)
  also have "\<dots> = 1 / 2 ^ 1074"
    using powr_realpow [of 2 1074] by simp
  finally show ?thesis by blast
qed

lemma round_mag_near:
  assumes "0 < x"
  shows "\<bar>round_mag x - x\<bar> \<le> b64_ulp x / 2"
proof -
  define u where "u = b64_ulp x"
  have u: "0 < u" by (simp add: u_def b64_ulp_pos)
  have "\<bar>of_int (round_even (x / u)) - x / u\<bar> \<le> 1 / 2"
    by (rule round_even_near)
  then have "\<bar>of_int (round_even (x / u)) - x / u\<bar> * u \<le> 1 / 2 * u"
    using u by (intro mult_right_mono) simp_all
  moreover have "\<bar>of_int (round_even (x / u)) - x / u\<bar> * u = \<bar>of_int (round_even (x / u)) * u - x\<bar>"
  proof -
    have "\<bar>of_int (round_even (x / u)) - x / u\<bar> * u = \<bar>(of_int (round_even (x / u)) - x / u) * u\<bar>"
      using u by (simp add: abs_mult)
    also have "(of_int (round_even (x / u)) - x / u) * u = of_int (round_even (x / u)) * u - x"
      using u by (simp add: field_simps)
    finally show ?thesis .
  qed
  ultimately show ?thesis
    using assms by (simp add: round_mag_def u_def)
qed

lemma round_mag_err:
  assumes "0 < x"
  shows "\<bar>round_mag x - x\<bar> \<le> x / 2 ^ 50 + 1 / 2 ^ 1074"
proof -
  note n = round_mag_near [OF assms]
  from b64_ulp_bound [OF assms] show ?thesis
  proof
    assume "b64_ulp x \<le> x / 2 ^ 52"
    moreover have "x / 2 ^ 52 \<le> x / 2 ^ 50"
      using assms by (intro divide_left_mono) simp_all
    moreover have "0 \<le> b64_ulp x" using b64_ulp_pos [of x] by simp
    moreover have "(0::real) \<le> 1 / 2 ^ 1074" by simp
    ultimately show ?thesis using n by linarith
  next
    assume "b64_ulp x = 1 / 2 ^ 1074"
    moreover have "0 \<le> x / 2 ^ 50" using assms by simp
    moreover have "(0::real) \<le> 1 / 2 ^ 1074" by simp
    ultimately show ?thesis using n by linarith
  qed
qed

lemma round_mag_0: "round_mag 0 = 0"
  by (simp add: round_mag_def)

lemma round64_err: "\<bar>round64 x - x\<bar> \<le> \<bar>x\<bar> / 2 ^ 50 + 1 / 2 ^ 1074"
proof (cases "x = 0")
  case True
  then show ?thesis by (simp add: round64_def round_mag_0)
next
  case False
  then have pos: "0 < \<bar>x\<bar>" by simp
  have "round64 x - x = sgn x * (round_mag (abs x) - abs x)"
    by (simp add: round64_def algebra_simps sgn_real_def)
  then have "\<bar>round64 x - x\<bar> = abs (round_mag (abs x) - abs x)"
    using False by (simp add: abs_mult sgn_real_def)
  with round_mag_err [OF pos] show ?thesis by simp
qed

lemma round_mag_multiple:
  assumes "x \<noteq> 0" and "x = of_int j * b64_ulp x"
  shows "round_mag x = x"
proof -
  have "x / b64_ulp x = of_int j"
    using assms(2) b64_ulp_pos [of x] by (simp add: field_simps)
  then have "round_even (x / b64_ulp x) = j"
    by (simp add: round_even_of_int)
  with assms show ?thesis by (simp add: round_mag_def)
qed

lemma powr_2_nat: "(2::real) powr of_int (int k) = 2 ^ k"
  using powr_realpow [of 2 k] by simp

lemma powr_2_neg_nat: "(2::real) powr of_int (- int k) = 1 / 2 ^ k"
  using powr_realpow [of 2 k] by (simp add: powr_minus_divide)

lemma round_mag_int:
  assumes "0 < n" and "n \<le> 2 ^ 53"
  shows "round_mag (of_int n) = of_int n"
proof -
  define x where "x = real_of_int n"
  define e where "e = \<lfloor>log 2 x\<rfloor>"
  have x: "1 \<le> x" "x \<le> 2 ^ 53" "0 < x"
    using assms by (simp_all add: x_def)
  have "0 \<le> log 2 x" using x by simp
  then have e0: "0 \<le> e" by (simp add: e_def)
  have le: "2 powr of_int e \<le> x"
    unfolding e_def using x by (intro powr_2_int_le)
  have "x \<le> 2 powr of_int (int 53)"
    using x by (simp only: powr_2_nat)
  with le have "(2::real) powr of_int e \<le> 2 powr of_int (int 53)" by linarith
  then have "real_of_int e \<le> of_int (int 53)" by (simp only: powr_le_cancel_iff)
  then have "e \<le> 53" by simp
  have ex: "b64_exponent x = e" using e0 by (simp add: b64_exponent_def e_def)
  have u: "b64_ulp x = 2 powr of_int (e - 52)" by (simp add: b64_ulp_def ex)
  have "\<exists>j. x = of_int j * b64_ulp x"
  proof (cases "e \<le> 52")
    case True
    define k where "k = nat (52 - e)"
    have "e - 52 = - int k" using True by (simp add: k_def)
    then have "b64_ulp x = 1 / 2 ^ k" by (simp only: u powr_2_neg_nat)
    then have "x = of_int (n * 2 ^ k) * b64_ulp x" by (simp add: x_def)
    then show ?thesis by blast
  next
    case False
    with \<open>e \<le> 53\<close> have e53: "e = 53" by simp
    from le have "2 ^ 53 \<le> x"
      using powr_2_nat [of 53] by (simp add: e53)
    with x have x53: "x = 2 ^ 53" by simp
    have "b64_ulp x = 2 powr of_int (int 1)" by (simp add: u e53)
    then have "b64_ulp x = 2" by (simp only: powr_2_nat) simp
    then have "x = of_int (2 ^ 52) * b64_ulp x" by (simp add: x53)
    then show ?thesis by blast
  qed
  then obtain j where "x = of_int j * b64_ulp x" by blast
  with x have "round_mag x = x" by (intro round_mag_multiple) simp_all
  then show ?thesis by (simp add: x_def)
qed

lemma round64_int:
  assumes "\<bar>n\<bar> \<le> 2 ^ 53"
  shows "round64 (of_int n) = of_int n"
proof (cases "n = 0")
  case True
  then show ?thesis by (simp add: round64_def round_mag_0)
next
  case False
  then have "0 < \<bar>n\<bar>" by simp
  from round_mag_int [OF this assms] have "round_mag (abs (real_of_int n)) = abs (real_of_int n)"
    by simp
  then show ?thesis
    by (simp add: round64_def sgn_real_def)
qed

lemma b64_exponent_mono:
  assumes "0 < x" and "x \<le> y"
  shows "b64_exponent x \<le> b64_exponent y"
proof -
  have "log 2 x \<le> log 2 y" using assms by simp
  then have "\<lfloor>log 2 x\<rfloor> \<le> \<lfloor>log 2 y\<rfloor>" by (rule floor_mono)
  then show ?thesis by (simp add: b64_exponent_def)
qed

lemma round_mag_as_ulp:
  assumes "0 < x"
  shows "round_mag x = of_int (round_even (x / b64_ulp x)) * b64_ulp x"
  using assms by (simp add: round_mag_def)

lemma round_mag_nonneg:
  assumes "0 \<le> x"
  shows "0 \<le> round_mag x"
proof (cases "x = 0")
  case True
  then show ?thesis by (simp add: round_mag_0)
next
  case False
  with assms have x: "0 < x" by simp
  have "0 \<le> x / b64_ulp x" using x b64_ulp_pos [of x] by simp
  then have "round_even 0 \<le> round_even (x / b64_ulp x)" by (rule round_even_mono)
  then have "0 \<le> round_even (x / b64_ulp x)"
    using round_even_of_int [of 0] by simp
  then show ?thesis
    using b64_ulp_pos [of x] by (simp add: round_mag_as_ulp [OF x])
qed

lemma ulp_times_pow:
  "2 ^ k * b64_ulp x = 2 powr (of_int (b64_exponent x) - 52 + of_int (int k))"
  by (simp only: powr_add powr_2_nat b64_ulp_def of_int_diff of_int_numeral) simp

lemma round_mag_upper:
  assumes "0 < x"
  shows "round_mag x \<le> 2 powr (of_int (b64_exponent x) + 1)"
proof -
  define u where "u = b64_ulp x"
  have u: "0 < u" by (simp add: u_def b64_ulp_pos)
  have "real_of_int (b64_exponent x) - 52 + of_int (int 53) = of_int (b64_exponent x) + 1"
    by simp
  then have top: "2 ^ 53 * u = 2 powr (of_int (b64_exponent x) + 1)"
    unfolding u_def ulp_times_pow by (simp only:)
  have "\<lfloor>log 2 x\<rfloor> \<le> b64_exponent x" by (simp add: b64_exponent_def)
  then have "real_of_int \<lfloor>log 2 x\<rfloor> + 1 \<le> of_int (b64_exponent x) + 1" by simp
  then have "(2::real) powr (of_int \<lfloor>log 2 x\<rfloor> + 1) \<le> 2 powr (of_int (b64_exponent x) + 1)"
    by (simp only: powr_le_cancel_iff)
  with powr_2_int_le(2) [OF assms] have "x \<le> 2 ^ 53 * u"
    unfolding top by linarith
  then have "x / u \<le> of_int (2 ^ 53)"
    using u by (simp add: field_simps)
  then have "round_even (x / u) \<le> round_even (of_int (2 ^ 53))" by (rule round_even_mono)
  then have "round_even (x / u) \<le> 2 ^ 53" by (simp only: round_even_of_int)
  then have "real_of_int (round_even (x / u)) \<le> 2 ^ 53"
    by (metis of_int_le_iff of_int_numeral of_int_power)
  then have "of_int (round_even (x / u)) * u \<le> 2 ^ 53 * u"
    using u by (intro mult_right_mono) simp_all
  then show ?thesis
    unfolding top by (simp only: round_mag_as_ulp [OF assms] u_def)
qed

lemma round_mag_lower:
  assumes "0 < y" and "- 1022 \<le> \<lfloor>log 2 y\<rfloor>"
  shows "2 powr of_int (b64_exponent y) \<le> round_mag y"
proof -
  define u where "u = b64_ulp y"
  have u: "0 < u" by (simp add: u_def b64_ulp_pos)
  have e: "b64_exponent y = \<lfloor>log 2 y\<rfloor>"
    using assms(2) by (simp add: b64_exponent_def)
  have "real_of_int (b64_exponent y) - 52 + of_int (int 52) = of_int (b64_exponent y)"
    by simp
  then have bot: "2 ^ 52 * u = 2 powr of_int (b64_exponent y)"
    unfolding u_def ulp_times_pow by (simp only:)
  have "2 ^ 52 * u \<le> y"
    unfolding bot e using assms(1) by (rule powr_2_int_le)
  then have "of_int (2 ^ 52) \<le> y / u"
    using u by (simp add: field_simps)
  then have "round_even (of_int (2 ^ 52)) \<le> round_even (y / u)" by (rule round_even_mono)
  then have "2 ^ 52 \<le> round_even (y / u)" by (simp only: round_even_of_int)
  then have "2 ^ 52 \<le> real_of_int (round_even (y / u))"
    by (metis of_int_le_iff of_int_numeral of_int_power)
  then have "2 ^ 52 * u \<le> of_int (round_even (y / u)) * u"
    using u by (intro mult_right_mono) simp_all
  then show ?thesis
    unfolding bot by (simp only: round_mag_as_ulp [OF assms(1)] u_def)
qed

lemma round_mag_mono:
  assumes "0 \<le> x" and "x \<le> y"
  shows "round_mag x \<le> round_mag y"
proof (cases "x = 0")
  case True
  with assms round_mag_nonneg [of y] show ?thesis by (simp add: round_mag_0)
next
  case False
  with assms have x: "0 < x" and y: "0 < y" by simp_all
  note le = b64_exponent_mono [OF x assms(2)]
  show ?thesis
  proof (cases "b64_exponent x = b64_exponent y")
    case True
    then have u: "b64_ulp x = b64_ulp y" by (simp add: b64_ulp_def)
    have "x / b64_ulp y \<le> y / b64_ulp y"
      using assms(2) b64_ulp_pos [of y] by (intro divide_right_mono) simp_all
    then have "round_even (x / b64_ulp y) \<le> round_even (y / b64_ulp y)"
      by (rule round_even_mono)
    then have "real_of_int (round_even (x / b64_ulp y)) * b64_ulp y
        \<le> of_int (round_even (y / b64_ulp y)) * b64_ulp y"
      using b64_ulp_pos [of y] by (intro mult_right_mono) simp_all
    then show ?thesis
      by (simp only: round_mag_as_ulp [OF x] round_mag_as_ulp [OF y] u)
  next
    case False
    with le have lt: "b64_exponent x + 1 \<le> b64_exponent y" by simp
    have "- 1022 \<le> b64_exponent x" by (simp add: b64_exponent_def)
    with lt have "- 1022 < b64_exponent y" by simp
    then have "- 1022 \<le> \<lfloor>log 2 y\<rfloor>" by (simp add: b64_exponent_def max_def split: if_splits)
    from round_mag_lower [OF y this] have "2 powr of_int (b64_exponent y) \<le> round_mag y" .
    moreover from lt have "real_of_int (b64_exponent x) + 1 \<le> of_int (b64_exponent y)"
      by linarith
    then have "(2::real) powr (of_int (b64_exponent x) + 1) \<le> 2 powr of_int (b64_exponent y)"
      by (simp only: powr_le_cancel_iff)
    moreover note round_mag_upper [OF x]
    ultimately show ?thesis by linarith
  qed
qed

lemma round64_nonneg: "0 \<le> x \<Longrightarrow> round64 x = round_mag x"
  by (simp add: round64_def sgn_real_def round_mag_0)

lemma round64_neg: "x < 0 \<Longrightarrow> round64 x = - round_mag (- x)"
  by (simp add: round64_def sgn_real_def)

lemma round64_mono: "mono round64"
proof (rule monoI)
  fix x y :: real
  assume le: "x \<le> y"
  consider "0 \<le> x" | "x < 0" "0 \<le> y" | "y < 0" by linarith
  then show "round64 x \<le> round64 y"
  proof cases
    case 1
    with le have "0 \<le> y" by simp
    with 1 le show ?thesis by (simp add: round64_nonneg round_mag_mono)
  next
    case 2
    have "0 \<le> round_mag (- x)" "0 \<le> round_mag y"
      using 2 by (simp_all add: round_mag_nonneg)
    with 2 show ?thesis by (simp add: round64_nonneg round64_neg)
  next
    case 3
    with le have "x < 0" by simp
    have "round_mag (- y) \<le> round_mag (- x)"
      using 3 le by (intro round_mag_mono) simp_all
    with 3 \<open>x < 0\<close> show ?thesis by (simp add: round64_neg)
  qed
qed

lemma round64_eval:
  fixes x :: real
  assumes lo: "2 ^ 52 / 2 ^ b \<le> x" and hi: "x < 2 ^ 53 / 2 ^ b" and sub: "b \<le> 1074"
    and m: "\<bar>x * 2 ^ b - of_int m\<bar> < 1 / 2"
  shows "round64 x = of_int m / 2 ^ b"
proof -
  define e where "e = 52 - int b"
  have x: "0 < x"
  proof -
    have "(0::real) < 2 ^ 52 / 2 ^ b" by simp
    with lo show ?thesis by linarith
  qed
  have p: "(2::real) powr of_int e = 2 ^ 52 / 2 ^ b"
  proof -
    have "real_of_int e = of_int (int 52) - of_int (int b)" by (simp add: e_def)
    then have "(2::real) powr of_int e = 2 powr of_int (int 52) / 2 powr of_int (int b)"
      by (simp only: powr_diff)
    then show ?thesis by (simp only: powr_2_nat)
  qed
  have p1: "(2::real) powr (of_int e + 1) = 2 ^ 53 / 2 ^ b"
    by (simp add: powr_add p)
  have "\<lfloor>log 2 x\<rfloor> = e"
    using x lo hi by (simp add: floor_log_eq_powr_iff p p1)
  moreover have "- 1022 \<le> e" using sub by (simp add: e_def)
  ultimately have ex: "b64_exponent x = e" by (simp add: b64_exponent_def)
  have "real_of_int (e - 52) = of_int (- int b)" by (simp add: e_def)
  then have u: "b64_ulp x = 1 / 2 ^ b"
    unfolding b64_ulp_def ex by (simp only: powr_2_neg_nat)
  have "round_even (x / b64_ulp x) = m"
    using m by (intro round_even_eqI) (simp add: u)
  then have "round_mag x = of_int m / 2 ^ b"
    using x by (simp add: round_mag_def u)
  with x show ?thesis by (simp add: round64_nonneg)
qed

lemma round64_0: "round64 0 = 0"
  by (simp add: round64_def round_mag_0)

lemma round64_1: "round64 1 = 1"
  using round64_int [of 1] by simp

lemma round64_255: "round64 255 = 255"
  using round64_int [of 255] by simp

lemma b64_0055: "round64 0.055 = 7926335344172073 / 2 ^ 57"
  using round64_eval [of 57 "0.055" 7926335344172073] by simp

lemma b64_1055: "round64 1.055 = 4751297606875873 / 2 ^ 52"
  using round64_eval [of 52 "1.055" 4751297606875873] by simp

lemma b64_1_plus_0055: "round64 (1 + 7926335344172073 / 2 ^ 57) = 4751297606875873 / 2 ^ 52"
  using round64_eval [of 52 "1 + 7926335344172073 / 2 ^ 57" 4751297606875873] by simp

lemma b64_02126: "round64 0.2126 = 7659722246231740 / 2 ^ 55"
  using round64_eval [of 55 "0.2126" 7659722246231740] by simp

lemma b64_07152: "round64 0.7152 = 6441948906990757 / 2 ^ 53"
  using round64_eval [of 53 "0.7152" 6441948906990757] by simp

lemma b64_00722: "round64 0.0722 = 5202558289538397 / 2 ^ 56"
  using round64_eval [of 56 "0.0722" 5202558289538397] by simp

lemma b64_w1_fix: "round64 (7659722246231740 / 2 ^ 55) = 7659722246231740 / 2 ^ 55"
  using round64_eval [of 55 "7659722246231740 / 2 ^ 55" 7659722246231740] by simp

lemma b64_w2_fix: "round64 (6441948906990757 / 2 ^ 53) = 6441948906990757 / 2 ^ 53"
  using round64_eval [of 53 "6441948906990757 / 2 ^ 53" 6441948906990757] by simp

lemma b64_w3_fix: "round64 (5202558289538397 / 2 ^ 56) = 5202558289538397 / 2 ^ 56"
  using round64_eval [of 56 "5202558289538397 / 2 ^ 56" 5202558289538397] by simp

lemma b64_w1_plus_w2:
  "round64 (7659722246231740 / 2 ^ 55 + 6441948906990757 / 2 ^ 53) = 8356879468548692 / 2 ^ 53"
  using round64_eval [of 53 "7659722246231740 / 2 ^ 55 + 6441948906990757 / 2 ^ 53"
      8356879468548692] by simp

lemma b64_weights_sum:
  "round64 (8356879468548692 / 2 ^ 53 + 5202558289538397 / 2 ^ 56) = 1"
  using round64_eval [of 53 "8356879468548692 / 2 ^ 53 + 5202558289538397 / 2 ^ 56"
      9007199254740992] by simp

lemma b64_005: "round64 0.05 = 7205759403792794 / 2 ^ 57"
  using round64_eval [of 57 "0.05" 7205759403792794] by simp

lemma b64_005_fix: "round64 (7205759403792794 / 2 ^ 57) = 7205759403792794 / 2 ^ 57"
  using round64_eval [of 57 "7205759403792794 / 2 ^ 57" 7205759403792794] by simp

lemma b64_1_plus_005: "round64 (1 + 7205759403792794 / 2 ^ 57) = 4728779608739021 / 2 ^ 52"
  using round64_eval [of 52 "1 + 7205759403792794 / 2 ^ 57" 4728779608739021] by simp

lemma b64_ratio_21:
  "round64 ((4728779608739021 / 2 ^ 52) / (7205759403792794 / 2 ^ 57)) = 21"
  using round64_eval [of 48 "(4728779608739021 / 2 ^ 52) / (7205759403792794 / 2 ^ 57)"
      5910974510923776] by simp

lemma rnd_binary64: "rnd (binary64 pw) = round64"
  by (simp add: binary64_def)

lemma pow_binary64: "pow (binary64 pw) = pw"
  by (simp add: binary64_def)

lemma float_ok_binary64:
  assumes "pow_ok pw"
  shows "float_ok (binary64 pw)"
  unfolding float_ok_def rnd_binary64 pow_binary64
proof (intro conjI allI impI)
  show "\<bar>round64 x - x\<bar> \<le> \<bar>x\<bar> / 2 ^ 50 + 1 / 2 ^ 1074" for x
    by (rule round64_err)
  show "round64 (of_int n) = of_int n" if "\<bar>n\<bar> \<le> 2 ^ 53" for n
    using that by (rule round64_int)
  show "\<bar>pw x y - x powr y\<bar> \<le> x powr y / 2 ^ 50 + 1 / 2 ^ 1074" if "0 < x" for x y
    using assms that unfolding pow_ok_def by blast
qed

lemma mono_binary64: "mono (rnd (binary64 pw))"
  by (simp only: rnd_binary64 round64_mono)

lemma pow_ok_rounded: "pow_ok (\<lambda>x y. round64 (x powr y))"
  unfolding pow_ok_def
proof (intro conjI allI impI)
  show "\<bar>round64 (x powr y) - x powr y\<bar> \<le> x powr y / 2 ^ 50 + 1 / 2 ^ 1074" for x y :: real
    using round64_err [of "x powr y"] by (simp only: abs_of_nonneg [OF powr_ge_zero])
  show "round64 (1 powr y) = 1" for y :: real
    by (simp only: powr_one_eq_one round64_1)
qed

lemma adjust_binary64_white:
  assumes "pow_ok pw"
  shows "adjust (binary64 pw) 255 = 1"
proof -
  define F where "F = binary64 pw"
  have F: "float_ok F" unfolding F_def by (rule float_ok_binary64 [OF assms])
  have "\<bar>rnd F 0.03928 - 0.03928\<bar> \<le> 1 / 10 ^ 13"
    by (intro rnd_near13 [OF F]) simp
  then have "lit F 0.03928 \<le> 1 / 2"
    unfolding lit_def by (rule upper_from_near) simp
  then have branch: "\<not> 1 \<le> lit F 0.03928" by simp
  have c: "fdiv F (of_py_int F 255) (lit F 255) = 1"
    by (simp add: F_def fdiv_def of_py_int_def lit_def rnd_binary64 round64_255 round64_1)
  have b: "fadd F 1 (lit F 0.055) = 4751297606875873 / 2 ^ 52"
    by (simp only: F_def fadd_def lit_def rnd_binary64 b64_0055 b64_1_plus_0055)
  have d: "lit F 1.055 = 4751297606875873 / 2 ^ 52"
    by (simp only: F_def lit_def rnd_binary64 b64_1055)
  have q: "fdiv F (4751297606875873 / 2 ^ 52) (4751297606875873 / 2 ^ 52) = 1"
    by (simp add: F_def fdiv_def rnd_binary64 round64_1)
  from assms have one: "pow F 1 y = 1" for y
    by (simp add: F_def pow_binary64 pow_ok_def)
  show ?thesis
    unfolding F_def [symmetric]
    by (simp only: adjust_def Let_def c branch if_False b d q one)
qed

lemma adjust_binary64_black: "adjust (binary64 pw) 0 = 0"
proof -
  define F where "F = binary64 pw"
  have "round64 0 \<le> round64 0.03928"
    by (intro monoD [OF round64_mono]) simp
  then have branch: "0 \<le> lit F 0.03928"
    by (simp only: F_def lit_def rnd_binary64 round64_0)
  have c: "fdiv F (of_py_int F 0) (lit F 255) = 0"
    by (simp add: F_def fdiv_def of_py_int_def lit_def rnd_binary64 round64_0)
  have q: "fdiv F 0 (lit F 12.92) = 0"
    by (simp add: F_def fdiv_def rnd_binary64 round64_0)
  show ?thesis
    unfolding F_def [symmetric]
    by (simp only: adjust_def Let_def c branch if_True q)
qed

lemma luminance_binary64_white:
  assumes "pow_ok pw"
  shows "rgb_to_luminance (binary64 pw) 255 255 255 = 1"
proof -
  define F where "F = binary64 pw"
  have m1: "fmul F (lit F 0.2126) 1 = 7659722246231740 / 2 ^ 55"
    by (simp only: F_def fmul_def lit_def rnd_binary64 b64_02126 mult_1_right b64_w1_fix)
  have m2: "fmul F (lit F 0.7152) 1 = 6441948906990757 / 2 ^ 53"
    by (simp only: F_def fmul_def lit_def rnd_binary64 b64_07152 mult_1_right b64_w2_fix)
  have m3: "fmul F (lit F 0.0722) 1 = 5202558289538397 / 2 ^ 56"
    by (simp only: F_def fmul_def lit_def rnd_binary64 b64_00722 mult_1_right b64_w3_fix)
  have s1: "fadd F (7659722246231740 / 2 ^ 55) (6441948906990757 / 2 ^ 53)
      = 8356879468548692 / 2 ^ 53"
    by (simp only: F_def fadd_def rnd_binary64 b64_w1_plus_w2)
  have s2: "fadd F (8356879468548692 / 2 ^ 53) (5202558289538397 / 2 ^ 56) = 1"
    by (simp only: F_def fadd_def rnd_binary64 b64_weights_sum)
  show ?thesis
    unfolding F_def [symmetric]
    by (simp only: rgb_to_luminance_def Let_def adjust_binary64_white [OF assms, folded F_def]
        m1 m2 m3 s1 s2)
qed

lemma luminance_binary64_black: "rgb_to_luminance (binary64 pw) 0 0 0 = 0"
  by (simp add: rgb_to_luminance_def Let_def adjust_binary64_black fadd_def fmul_def
      rnd_binary64 round64_0)

lemma contrast_binary64_black_white:
  assumes "pow_ok pw"
  shows "contrast_ratio (binary64 pw) (Rgb (0, 0, 0)) (Rgb (255, 255, 255)) = Inr 21"
proof -
  define F where "F = binary64 pw"
  have mx: "max (0::real) 1 = 1" and mn: "min (0::real) 1 = 0" by simp_all
  have n: "fadd F 1 (lit F 0.05) = 4728779608739021 / 2 ^ 52"
    by (simp only: F_def fadd_def lit_def rnd_binary64 b64_005 b64_1_plus_005)
  have d: "fadd F 0 (lit F 0.05) = 7205759403792794 / 2 ^ 57"
    by (simp only: F_def fadd_def lit_def rnd_binary64 b64_005 add_0 b64_005_fix)
  have nz: "(7205759403792794 / 2 ^ 57 :: real) \<noteq> 0" by simp
  have q: "truediv F (4728779608739021 / 2 ^ 52) (7205759403792794 / 2 ^ 57) = Inr 21"
    by (simp only: truediv_def nz if_False fdiv_def F_def rnd_binary64 b64_ratio_21)
  show ?thesis
    unfolding F_def [symmetric]
    by (simp only: contrast_ratio_def resolve_def color.case sum.case prod.case Let_def
        luminance_binary64_white [OF assms, folded F_def]
        luminance_binary64_black [of pw, folded F_def] mx mn n d q)
qed

lemma contrast_range_binary64:
  assumes "pow_ok pw" and "is_color a" and "is_color b"
  shows "ratio_within 1 21 (contrast_ratio (binary64 pw) (Rgb a) (Rgb b))"
proof -
  have "ratio_within 1 21 (contrast_ratio (binary64 pw) (Rgb (0, 0, 0)) (Rgb (255, 255, 255)))"
    by (simp add: contrast_binary64_black_white [OF assms(1)] ratio_within_def)
  with float_ok_binary64 [OF assms(1)] mono_binary64 show ?thesis
    using assms(2,3) by (rule contrast_range_float)
qed

section \<open>The claims\<close>

text \<open>
  C1 as the specification words it fails: a string of seven hexadecimal digits is not
  "exactly 6 hex digits", and \<open>hex_to_rgb\<close> returns a colour for it, reading the first six.
\<close>

theorem hex_to_rgb_seven_digits:
  "hex_to_rgb ''1234567'' = Inr (18, 52, 86) \<and>
   \<not> six_hex_digits (strip_optional_hash ''1234567'')"
  by (simp add: hex_to_rgb_by_groups lstrip_hash_def slice_def hex_digit_def hex_pair_def
      hex_value_def hex_digit_value_def digit_value_def six_hex_digits_def
      strip_optional_hash_def)

text \<open>
  C1, amended: after every leading \<^verbatim>\<open>#\<close> is stripped, \<open>hex_to_rgb\<close> looks only at the three
  groups at positions 0-1, 2-3 and 4-5. It raises \<open>ValueError\<close> exactly when one of them is
  not a literal that \<^verbatim>\<open>int(x, 16)\<close> accepts (\<open>group_ok\<close>: two hexadecimal digits, one digit
  after a sign or next to a whitespace character, or a single digit), and otherwise
  returns the three values; characters after position 5 are ignored. When what remains is
  exactly six hexadecimal digits it returns the base-16 values of the three pairs.
\<close>

theorem hex_to_rgb_characterisation:
  "hex_to_rgb s =
     (let h = lstrip_hash s in
      if group_ok (slice 0 2 h) \<and> group_ok (slice 2 4 h) \<and> group_ok (slice 4 6 h)
      then Inr (group_value (slice 0 2 h), group_value (slice 2 4 h), group_value (slice 4 6 h))
      else Inl ValueError) \<and>
   (six_hex_digits (lstrip_hash s) \<longrightarrow>
      hex_to_rgb s =
        (let h = lstrip_hash s
         in Inr (hex_pair (h ! 0) (h ! 1), hex_pair (h ! 2) (h ! 3), hex_pair (h ! 4) (h ! 5))))"
proof (intro conjI impI)
  show "hex_to_rgb s =
     (let h = lstrip_hash s in
      if group_ok (slice 0 2 h) \<and> group_ok (slice 2 4 h) \<and> group_ok (slice 4 6 h)
      then Inr (group_value (slice 0 2 h), group_value (slice 2 4 h), group_value (slice 4 6 h))
      else Inl ValueError)"
    by (rule hex_to_rgb_by_groups)
next
  assume six: "six_hex_digits (lstrip_hash s)"
  then obtain a b c d e f where h: "lstrip_hash s = [a, b, c, d, e, f]"
    and d: "hex_digit a" "hex_digit b" "hex_digit c" "hex_digit d" "hex_digit e" "hex_digit f"
    by (rule six_hex_digitsE)
  from hex_to_rgb_six [OF h d] show "hex_to_rgb s =
        (let h = lstrip_hash s
         in Inr (hex_pair (h ! 0) (h ! 1), hex_pair (h ! 2) (h ! 3), hex_pair (h ! 4) (h ! 5)))"
    by (simp add: h)
qed

theorem hex_to_rgb_characterisation_witness:
  "six_hex_digits (lstrip_hash ''#27ae60'') \<and> hex_to_rgb ''#27ae60'' = Inr (39, 174, 96)"
proof -
  have six: "six_hex_digits (lstrip_hash ''#27ae60'')"
    by (simp add: six_hex_digits_def lstrip_hash_def hex_digit_def)
  from hex_to_rgb_characterisation [of "''#27ae60''"] six
  have "hex_to_rgb ''#27ae60'' =
        (let h = lstrip_hash ''#27ae60''
         in Inr (hex_pair (h ! 0) (h ! 1), hex_pair (h ! 2) (h ! 3), hex_pair (h ! 4) (h ! 5)))"
    by blast
  then have "hex_to_rgb ''#27ae60'' = Inr (39, 174, 96)"
    by (simp add: lstrip_hash_def hex_pair_def hex_value_def hex_digit_value_def
        digit_value_def)
  with six show ?thesis by simp
qed

text \<open>
  C2 as the specification words it fails: in exact arithmetic the contrast ratio of
  \<^verbatim>\<open>"#ffffff"\<close> and \<^verbatim>\<open>"#27ae60"\<close> is not within \<open>0.005\<close> of \<open>2.19\<close>.
\<close>

theorem contrast_white_on_normal_not_2_19:
  "\<not> ratio_within 2.185 2.195 (contrast_ratio exact_fp (Str ''#ffffff'') (Str ''#27ae60''))"
proof -
  from contrast_exact_white_normal obtain q0
    where q0: "contrast_ratio exact_fp (Rgb (255, 255, 255)) (Rgb (39, 174, 96)) = Inr q0"
      and b: "28729 / 10 ^ 4 + 1 / 10 ^ 6 \<le> q0"
    by blast
  from b have "\<not> q0 \<le> 2.195" by simp
  with q0 show ?thesis
    by (simp only: contrast_hex_white_normal ratio_within_def sum.case) simp
qed

text \<open>
  C2, amended: \<open>contrast_ratio\<close> applied to \<^verbatim>\<open>"#ffffff"\<close> and \<^verbatim>\<open>"#27ae60"\<close> returns a ratio
  between \<open>2.8729\<close> and \<open>2.8730\<close>, which the report prints as \<open>2.87\<close>, and the check for
  large text (\<open>ratio \<ge> 3.0\<close>) fails. This holds in every arithmetic that meets \<open>float_ok\<close>.
\<close>

theorem contrast_white_on_normal:
  assumes "float_ok F"
  shows "\<exists>q. contrast_ratio F (Str ''#ffffff'') (Str ''#27ae60'') = Inr q \<and>
           2.8729 \<le> q \<and> q \<le> 2.873 \<and> \<not> aa_large_pass q"
proof -
  from contrast_white_normal_near [OF assms] obtain q
    where q: "contrast_ratio F (Str ''#ffffff'') (Str ''#27ae60'') = Inr q"
      and b: "2.8729 \<le> q" "q \<le> 2.873"
    by (rule ratio_withinE)
  from b(2) have "\<not> aa_large_pass q"
    by (simp add: aa_large_pass_def)
  with q b show ?thesis by blast
qed

theorem contrast_white_on_normal_witness:
  "float_ok exact_fp \<and>
   (\<exists>q. contrast_ratio exact_fp (Str ''#ffffff'') (Str ''#27ae60'') = Inr q \<and>
      2.8729 \<le> q \<and> q \<le> 2.873 \<and> \<not> aa_large_pass q)"
  using contrast_white_on_normal [OF float_ok_exact] float_ok_exact by blast

text \<open>
  C3: for every pair of colours \<open>a\<close> and \<open>b\<close> the contrast ratio lies in \<open>[1, 21]\<close>. In exact
  arithmetic this holds as it stands. It also holds as the interpreter computes it, in
  binary64 with every operation rounded to nearest even (\<open>binary64 pw\<close>), for every power
  function \<open>pw\<close> that meets \<open>pow_ok\<close>: the extreme pair, black against white, evaluates to
  \<open>21\<close> exactly, and every other pair stays below \<open>21\<close> by more than the rounding error.
\<close>

theorem contrast_ratio_range:
  assumes "is_color a" and "is_color b"
  shows "ratio_within 1 21 (contrast_ratio exact_fp (Rgb a) (Rgb b)) \<and>
         (pow_ok pw \<longrightarrow>
          ratio_within 1 21 (contrast_ratio (binary64 pw) (Rgb a) (Rgb b)))"
proof (intro conjI impI)
  obtain r1 g1 b1 where a: "a = (r1, g1, b1)" by (cases a)
  obtain r2 g2 b2 where b: "b = (r2, g2, b2)" by (cases b)
  from assms show "ratio_within 1 21 (contrast_ratio exact_fp (Rgb a) (Rgb b))"
    unfolding a b by (rule contrast_exact_range)
next
  assume "pow_ok pw"
  then show "ratio_within 1 21 (contrast_ratio (binary64 pw) (Rgb a) (Rgb b))"
    using assms by (rule contrast_range_binary64)
qed

theorem contrast_ratio_range_witness:
  "is_color (255, 255, 255) \<and> is_color (39, 174, 96) \<and>
   pow_ok (\<lambda>x y. round64 (x powr y)) \<and>
   ratio_within 1 21 (contrast_ratio exact_fp (Rgb (255, 255, 255)) (Rgb (39, 174, 96))) \<and>
   ratio_within 1 21
     (contrast_ratio (binary64 (\<lambda>x y. round64 (x powr y)))
        (Rgb (255, 255, 255)) (Rgb (39, 174, 96)))"
  using contrast_ratio_range
      [OF is_color_white is_color_normal, of "\<lambda>x y. round64 (x powr y)"]
    pow_ok_rounded is_color_white is_color_normal
  by blast

text \<open>
  C4: for colours \<open>fg\<close> and \<open>bg\<close> and \<open>alpha\<close> in \<open>[0, 1]\<close>, each channel of
  \<open>blend_rgba_on_rgb\<close> is the truncation toward zero (\<open>py_trunc\<close>) of the floating-point
  value of \<open>fg * alpha + bg * (1 - alpha)\<close>, that value is within \<open>10\<^sup>-\<^sup>9\<close> of the exact
  one (and is the exact one in exact arithmetic), and the result is a colour: every
  channel is an integer in \<open>[0, 255]\<close>.
\<close>

theorem blend_truncates_within_range:
  assumes "float_ok F" and "is_color (fr, fg, fb)" and "is_color (br, bg, bb)"
    and "0 \<le> alpha" and "alpha \<le> 1"
  shows "blend_rgba_on_rgb F (fr, fg, fb) (br, bg, bb) alpha =
           (py_trunc (blend_value F fr br alpha), py_trunc (blend_value F fg bg alpha),
            py_trunc (blend_value F fb bb alpha)) \<and>
         \<bar>blend_value F fr br alpha - (of_int fr * alpha + of_int br * (1 - alpha))\<bar> \<le> 1 / 10 ^ 9 \<and>
         \<bar>blend_value F fg bg alpha - (of_int fg * alpha + of_int bg * (1 - alpha))\<bar> \<le> 1 / 10 ^ 9 \<and>
         \<bar>blend_value F fb bb alpha - (of_int fb * alpha + of_int bb * (1 - alpha))\<bar> \<le> 1 / 10 ^ 9 \<and>
         (\<forall>f b. blend_value exact_fp f b alpha = of_int f * alpha + of_int b * (1 - alpha)) \<and>
         is_color (blend_rgba_on_rgb F (fr, fg, fb) (br, bg, bb) alpha)"
  using blend_is_color [OF assms] blend_channels_near [OF assms]
  by (simp add: blend_rgba_on_rgb_def blend_value_exact)

theorem blend_truncates_within_range_witness:
  "float_ok exact_fp \<and> is_color (255, 255, 255) \<and> is_color (39, 174, 96) \<and>
   (0::real) \<le> 0.75 \<and> (0.75::real) \<le> 1 \<and>
   blend_rgba_on_rgb exact_fp (255, 255, 255) (39, 174, 96) 0.75 =
     (py_trunc (blend_value exact_fp 255 39 0.75), py_trunc (blend_value exact_fp 255 174 0.75),
      py_trunc (blend_value exact_fp 255 96 0.75)) \<and>
   is_color (blend_rgba_on_rgb exact_fp (255, 255, 255) (39, 174, 96) 0.75) \<and>
   blend_rgba_on_rgb exact_fp (255, 255, 255) (39, 174, 96) 0.75 = (201, 234, 215)"
proof -
  have a: "(0::real) \<le> 0.75" "(0.75::real) \<le> 1" by simp_all
  note t = blend_truncates_within_range [OF float_ok_exact is_color_white is_color_normal a]
  have v: "py_trunc (blend_value exact_fp 255 39 0.75) = 201"
    "py_trunc (blend_value exact_fp 255 174 0.75) = 234"
    "py_trunc (blend_value exact_fp 255 96 0.75) = 215"
    by (simp_all add: blend_value_def fadd_def fmul_def fsub_def of_py_int_def exact_fp_def
        py_trunc_def floor_eq_iff)
  from t have "blend_rgba_on_rgb exact_fp (255, 255, 255) (39, 174, 96) 0.75 = (201, 234, 215)"
    by (simp only: v)
  with t show ?thesis
    using float_ok_exact is_color_white is_color_normal a by blast
qed

text \<open>
  C5: the contrast ratio does not depend on the order of its arguments, whether they are
  strings or triples, and neither does the exception when there is one.
\<close>

theorem contrast_ratio_symmetric: "contrast_ratio F a b = contrast_ratio F b a"
  by (rule contrast_ratio_sym)

text \<open>
  C6: for a valid 6-hex-digit string \<open>s\<close>, with or without a leading \<^verbatim>\<open>#\<close>, \<open>hex_to_rgb\<close>
  returns a colour \<open>t\<close>, and passing \<open>s\<close> to \<open>contrast_ratio\<close> is the same as passing \<open>t\<close>,
  in either argument position and whatever the other argument is.
\<close>

theorem contrast_ratio_hex_string:
  assumes "six_hex_digits (strip_optional_hash s)"
  shows "\<exists>t. hex_to_rgb s = Inr t \<and> is_color t \<and>
           contrast_ratio F (Str s) c = contrast_ratio F (Rgb t) c \<and>
           contrast_ratio F c (Str s) = contrast_ratio F c (Rgb t)"
proof -
  from hex_to_rgb_valid [OF assms] obtain t where t: "hex_to_rgb s = Inr t" "is_color t"
    by blast
  then have "resolve (Str s) = resolve (Rgb t)"
    by (simp add: resolve_def)
  then have "contrast_ratio F (Str s) c = contrast_ratio F (Rgb t) c"
    and "contrast_ratio F c (Str s) = contrast_ratio F c (Rgb t)"
    by (simp_all only: contrast_ratio_def)
  with t show ?thesis by blast
qed

theorem contrast_ratio_hex_string_witness:
  "six_hex_digits (strip_optional_hash ''#27ae60'') \<and>
   hex_to_rgb ''#27ae60'' = Inr (39, 174, 96) \<and>
   contrast_ratio exact_fp (Str ''#27ae60'') (Rgb (255, 255, 255)) =
     contrast_ratio exact_fp (Rgb (39, 174, 96)) (Rgb (255, 255, 255)) \<and>
   contrast_ratio exact_fp (Rgb (255, 255, 255)) (Str ''#27ae60'') =
     contrast_ratio exact_fp (Rgb (255, 255, 255)) (Rgb (39, 174, 96))"
proof -
  have six: "six_hex_digits (strip_optional_hash ''#27ae60'')"
    by (simp add: six_hex_digits_def strip_optional_hash_def hex_digit_def)
  from contrast_ratio_hex_string [OF six, of exact_fp "Rgb (255, 255, 255)"]
  show ?thesis
    using six by (auto simp: hex_normal)
qed

text \<open>
  C7: the contrast ratio of black \<open>(0, 0, 0)\<close> and white \<open>(255, 255, 255)\<close> is \<open>21\<close> within
  \<open>10\<^sup>-\<^sup>6\<close>, in every arithmetic that meets \<open>float_ok\<close>.
\<close>

theorem contrast_black_white:
  assumes "float_ok F"
  shows "ratio_within (21 - 1 / 10 ^ 6) (21 + 1 / 10 ^ 6)
           (contrast_ratio F (Rgb (0, 0, 0)) (Rgb (255, 255, 255)))"
proof -
  from contrast_near [OF assms is_color_black is_color_white]
  obtain q where q: "contrast_ratio F (Rgb (0, 0, 0)) (Rgb (255, 255, 255)) = Inr q"
    and near: "\<bar>q - 21\<bar> \<le> 1 / 10 ^ 7"
    unfolding contrast_exact_black_white by auto
  from near have "\<bar>q - 21\<bar> \<le> 1 / 10 ^ 6" by (rule near_weaken) simp
  then have "21 - 1 / 10 ^ 6 \<le> q \<and> q \<le> 21 + 1 / 10 ^ 6" by linarith
  with q show ?thesis by (simp only: ratio_within_def sum.case)
qed

theorem contrast_black_white_witness:
  "float_ok exact_fp \<and>
   ratio_within (21 - 1 / 10 ^ 6) (21 + 1 / 10 ^ 6)
     (contrast_ratio exact_fp (Rgb (0, 0, 0)) (Rgb (255, 255, 255)))"
  using contrast_black_white [OF float_ok_exact] float_ok_exact by blast

text \<open>
  C8: the relative luminance of white \<open>(255, 255, 255)\<close> is \<open>1\<close> and that of black
  \<open>(0, 0, 0)\<close> is \<open>0\<close>, each within \<open>10\<^sup>-\<^sup>6\<close>, in every arithmetic that meets \<open>float_ok\<close>.
\<close>

theorem luminance_white_black:
  assumes "float_ok F"
  shows "\<bar>rgb_to_luminance F 255 255 255 - 1\<bar> \<le> 1 / 10 ^ 6 \<and>
         \<bar>rgb_to_luminance F 0 0 0 - 0\<bar> \<le> 1 / 10 ^ 6"
proof -
  have "\<bar>rgb_to_luminance F 255 255 255 - 1\<bar> \<le> 5 / 10 ^ 11"
    using luminance_near [OF assms is_color_white] by (simp only: luminance_exact_white)
  moreover have "\<bar>rgb_to_luminance F 0 0 0 - 0\<bar> \<le> 5 / 10 ^ 11"
    using luminance_near [OF assms is_color_black] by (simp only: luminance_exact_black)
  ultimately show ?thesis
    by (intro conjI; elim near_weaken; simp)
qed

theorem luminance_white_black_witness:
  "float_ok exact_fp \<and>
   \<bar>rgb_to_luminance exact_fp 255 255 255 - 1\<bar> \<le> 1 / 10 ^ 6 \<and>
   \<bar>rgb_to_luminance exact_fp 0 0 0 - 0\<bar> \<le> 1 / 10 ^ 6"
  using luminance_white_black [OF float_ok_exact] float_ok_exact by blast

text \<open>
  C9: for colours \<open>fg\<close> and \<open>bg\<close>, blending with \<open>alpha = 0.0\<close> returns \<open>bg\<close> unchanged and
  blending with \<open>alpha = 1.0\<close> returns \<open>fg\<close> unchanged; in particular white over black
  gives black at \<open>0.0\<close> and white at \<open>1.0\<close>.
\<close>

theorem blend_alpha_zero_one:
  assumes "float_ok F" and "is_color fg" and "is_color bg"
  shows "blend_rgba_on_rgb F fg bg 0 = bg \<and> blend_rgba_on_rgb F fg bg 1 = fg"
  using assms
  by (auto simp: is_color_def blend_rgba_on_rgb_def blend_value_0 blend_value_1 py_trunc_of_int
      split: prod.splits)

theorem blend_alpha_zero_one_witness:
  "float_ok exact_fp \<and> is_color (255, 255, 255) \<and> is_color (0, 0, 0) \<and>
   blend_rgba_on_rgb exact_fp (255, 255, 255) (0, 0, 0) 0 = (0, 0, 0) \<and>
   blend_rgba_on_rgb exact_fp (255, 255, 255) (0, 0, 0) 1 = (255, 255, 255)"
  using blend_alpha_zero_one [OF float_ok_exact is_color_white is_color_black]
    float_ok_exact is_color_white is_color_black by blast

text \<open>
  C10: every leading \<^verbatim>\<open>#\<close> is stripped, not just one. For a string \<open>s\<close> of exactly six
  hexadecimal digits and any number \<open>n\<close> of \<^verbatim>\<open>#\<close> before it, \<open>hex_to_rgb\<close> succeeds and
  returns the same triple as for \<open>s\<close> alone.
\<close>

theorem hex_to_rgb_many_hashes:
  assumes "six_hex_digits s"
  shows "hex_to_rgb (replicate n (CHR ''#'') @ s) = hex_to_rgb s \<and>
         hex_to_rgb s =
           Inr (hex_pair (s ! 0) (s ! 1), hex_pair (s ! 2) (s ! 3), hex_pair (s ! 4) (s ! 5))"
  using hex_to_rgb_hashes [OF assms, of n] hex_to_rgb_hashes [OF assms, of 0] by simp

theorem hex_to_rgb_many_hashes_witness:
  "six_hex_digits ''c0392b'' \<and>
   hex_to_rgb (''###'' @ ''c0392b'') = hex_to_rgb ''c0392b'' \<and>
   hex_to_rgb ''c0392b'' = Inr (192, 57, 43)"
proof -
  have six: "six_hex_digits ''c0392b''"
    by (simp add: six_hex_digits_def hex_digit_def)
  have rep: "replicate 3 (CHR ''#'') = ''###''"
    by (simp add: eval_nat_numeral)
  from hex_to_rgb_many_hashes [OF six, of 3]
  have "hex_to_rgb (''###'' @ ''c0392b'') = hex_to_rgb ''c0392b''"
    and "hex_to_rgb ''c0392b'' =
      Inr (hex_pair (''c0392b'' ! 0) (''c0392b'' ! 1), hex_pair (''c0392b'' ! 2) (''c0392b'' ! 3),
           hex_pair (''c0392b'' ! 4) (''c0392b'' ! 5))"
    unfolding rep by blast+
  then show ?thesis
    using six by (simp add: hex_pair_def hex_value_def hex_digit_value_def digit_value_def)
qed

end
